theory Spec2Isabelle
  imports Complex_Main
begin

section \<open>The calculator's expression evaluator (Calculator.c)\<close>

text \<open>
  The theory embeds the three stages of \<^verbatim>\<open>evaluate_expression\<close> in Calculator.c:
  \<^verbatim>\<open>tokenize\<close>, \<^verbatim>\<open>to_postfix\<close> (shunting yard) and \<^verbatim>\<open>eval_postfix\<close>, with the helpers
  \<^verbatim>\<open>precedence\<close>, \<^verbatim>\<open>is_right_associative\<close>, \<^verbatim>\<open>apply_operator\<close>, \<^verbatim>\<open>apply_function\<close>,
  \<^verbatim>\<open>factorial\<close> and \<^verbatim>\<open>degrees_to_radians\<close>.

  Conventions of the embedding.
  \<^item> A C \<^verbatim>\<open>double\<close> is modelled by a \<open>real\<close>: arithmetic is exact. Rounding, overflow to
    an infinity and NaN are outside the model; where the C program produces a value that
    is no real number (a pole or domain error of \<^verbatim>\<open>pow\<close>) the model stops with a fault.
  \<^item> A C \<^verbatim>\<open>int\<close> is a 32-bit two's complement integer, modelled by an \<open>int\<close> with the
    range written out.
  \<^item> The \<^verbatim>\<open>int *error\<close> flag is threaded through: a function that may set it takes the
    flag and returns the new one beside its value.
  \<^item> A return value of \<^verbatim>\<open>-1\<close> of \<^verbatim>\<open>tokenize\<close> and \<^verbatim>\<open>to_postfix\<close> is \<open>None\<close>; a
    count \<open>n\<close> with the first \<open>n\<close> array elements is \<open>Some\<close> of the list of these elements.
  \<^item> Where the C program leaves defined behaviour (it writes past a fixed-size array,
    converts an out-of-range double to \<^verbatim>\<open>int\<close>, \dots) the model returns a \<open>Fault\<close>
    that names the reason, and says nothing about what happens afterwards.
\<close>

subsection \<open>Outcomes\<close>

datatype fault =
    BufferOverrun    \<comment> \<open>a write past the end of a fixed-size array\<close>
  | IntRange         \<comment> \<open>\<^verbatim>\<open>(int)x\<close> for a double whose integral part is no \<^verbatim>\<open>int\<close>, or \<^verbatim>\<open>int\<close> overflow\<close>
  | NotReal          \<comment> \<open>\<^verbatim>\<open>pow\<close> returns an infinity or a NaN\<close>
  | Indeterminate    \<comment> \<open>\<^verbatim>\<open>sscanf\<close> fails to match: the token's value stays uninitialised\<close>
  | CharRange        \<comment> \<open>a \<^verbatim>\<open>ctype.h\<close> function applied to a negative \<^verbatim>\<open>char\<close>\<close>

datatype 'a outcome = Returns 'a | Fault fault

subsection \<open>Constants and tokens\<close>

definition MAX_TOKENS :: nat where
  "MAX_TOKENS = 100"

definition MAX_STACK :: nat where
  "MAX_STACK = 100"

definition INT_MAX :: int where
  "INT_MAX = 2147483647"

definition INT_MIN :: int where
  "INT_MIN = - 2147483648"

text \<open>
  The C \<^verbatim>\<open>Token\<close> is a struct of a type tag and three payload fields, of which the code
  writes and reads only the one that belongs to the tag. It is modelled as the tagged
  union it is used as.
\<close>

datatype token =
    Number real
  | Operator char
  | Function string
  | ParenLeft
  | ParenRight

subsection \<open>Character classes of \<^verbatim>\<open>ctype.h\<close> (C locale)\<close>

definition isspace :: "char \<Rightarrow> bool" where
  "isspace c = (c \<in> set [CHR '' '', CHR 0x09, CHR 0x0A, CHR 0x0B, CHR 0x0C, CHR 0x0D])"

definition isdigit :: "char \<Rightarrow> bool" where
  "isdigit c = (c \<in> set ''0123456789'')"

definition isalpha :: "char \<Rightarrow> bool" where
  "isalpha c = (c \<in> set ''ABCDEFGHIJKLMNOPQRSTUVWXYZabcdefghijklmnopqrstuvwxyz'')"

definition isxdigit :: "char \<Rightarrow> bool" where
  "isxdigit c = (c \<in> set ''0123456789ABCDEFabcdef'')"

text \<open>\<^verbatim>\<open>*p\<close> for a pointer into a C string: the list is the text before the terminating NUL.\<close>

definition peek :: "string \<Rightarrow> char" where
  "peek p = (case p of [] \<Rightarrow> CHR 0x00 | c # _ \<Rightarrow> c)"

subsection \<open>Helpers\<close>

definition precedence :: "char \<Rightarrow> int" where
  "precedence op =
     (if op = CHR ''+'' \<or> op = CHR ''-'' then 1
      else if op = CHR ''*'' \<or> op = CHR ''/'' \<or> op = CHR ''%'' then 2
      else if op = CHR ''^'' then 3
      else 0)"

definition is_right_associative :: "char \<Rightarrow> bool" where
  "is_right_associative op = (op = CHR ''^'')"

text \<open>Conversion of a double to \<^verbatim>\<open>int\<close>: truncation toward zero, undefined out of range.\<close>

definition truncate :: "real \<Rightarrow> int" where
  "truncate a = (if 0 \<le> a then \<lfloor>a\<rfloor> else \<lceil>a\<rceil>)"

definition double_to_int :: "real \<Rightarrow> int option" where
  "double_to_int a =
     (let t = truncate a in if INT_MIN \<le> t \<and> t \<le> INT_MAX then Some t else None)"

text \<open>The \<^verbatim>\<open>%\<close> of C on \<^verbatim>\<open>int\<close>: the quotient truncates, the remainder has the dividend's sign.\<close>

definition c_rem :: "int \<Rightarrow> int \<Rightarrow> int" where
  "c_rem a b = sgn a * (\<bar>a\<bar> mod \<bar>b\<bar>)"

text \<open>
  \<^verbatim>\<open>pow\<close> of \<^verbatim>\<open>math.h\<close>, on the arguments where its result is a real number: an integral
  exponent is a repeated product or its inverse, any exponent of a positive base is
  \<open>powr\<close>, and zero to a positive power is zero. A zero base with a negative exponent
  (infinity) and a negative base with a fractional exponent (NaN) have no real result.
\<close>

definition pow :: "real \<Rightarrow> real \<Rightarrow> real option" where
  "pow x y =
     (if y = of_int \<lfloor>y\<rfloor> then
        (if x = 0 \<and> y < 0 then None else Some (x powi \<lfloor>y\<rfloor>))
      else if 0 < x then Some (x powr y)
      else if x = 0 \<and> 0 < y then Some 0
      else None)"

definition apply_operator :: "char \<Rightarrow> real \<Rightarrow> real \<Rightarrow> int \<Rightarrow> (real \<times> int) outcome" where
  "apply_operator op a b error =
     (if op = CHR ''+'' then Returns (a + b, error)
      else if op = CHR ''-'' then Returns (a - b, error)
      else if op = CHR ''*'' then Returns (a * b, error)
      else if op = CHR ''/'' then
        (if b = 0 then Returns (0, 1) else Returns (a / b, error))
      else if op = CHR ''%'' then
        (case double_to_int b of
           None \<Rightarrow> Fault IntRange
         | Some ib \<Rightarrow>
             if ib = 0 then Returns (0, 1)
             else (case double_to_int a of
                     None \<Rightarrow> Fault IntRange
                   | Some ia \<Rightarrow>
                       if ia = INT_MIN \<and> ib = - 1 then Fault IntRange
                       else Returns (of_int (c_rem ia ib), error)))
      else if op = CHR ''^'' then
        (case pow a b of None \<Rightarrow> Fault NotReal | Some v \<Rightarrow> Returns (v, error))
      else Returns (0, 1))"

text \<open>
  \<^verbatim>\<open>factorial\<close>: the loop \<^verbatim>\<open>for (int i = 2; i <= n; i++) res *= i\<close>. For \<^verbatim>\<open>n = INT_MAX\<close>
  the loop condition never fails and \<^verbatim>\<open>i++\<close> overflows.
\<close>

function fact_loop :: "int \<Rightarrow> int \<Rightarrow> real \<Rightarrow> real" where
  "fact_loop i n res = (if i \<le> n then fact_loop (i + 1) n (res * of_int i) else res)"
  by pat_completeness auto
termination
  by (relation "measure (\<lambda>(i, n, res). nat (n + 1 - i))") auto

definition factorial :: "int \<Rightarrow> real outcome" where
  "factorial n =
     (if n < 0 then Returns 0
      else if n = INT_MAX then Fault IntRange
      else Returns (fact_loop 2 n 1))"

text \<open>The source's own value of \<^verbatim>\<open>M_PI\<close>, as written there.\<close>

definition M_PI :: real where
  "M_PI = 314159265358979323846 / 10 ^ 20"

definition degrees_to_radians :: "real \<Rightarrow> real" where
  "degrees_to_radians deg = deg * M_PI / 180"

definition apply_function :: "string \<Rightarrow> real \<Rightarrow> int \<Rightarrow> (real \<times> int) outcome" where
  "apply_function func a error =
     (if func = ''sqrt'' then (if a < 0 then Returns (0, 1) else Returns (sqrt a, error))
      else if func = ''abs'' then Returns (\<bar>a\<bar>, error)
      else if func = ''ln'' then (if a \<le> 0 then Returns (0, 1) else Returns (ln a, error))
      else if func = ''log'' then
        (if a \<le> 0 then Returns (0, 1) else Returns (log 10 a, error))
      else if func = ''exp'' then Returns (exp a, error)
      else if func = ''fact'' then
        (if a < 0 \<or> of_int \<lfloor>a\<rfloor> \<noteq> a then Returns (0, 1)
         else (case double_to_int a of
                 None \<Rightarrow> Fault IntRange
               | Some n \<Rightarrow>
                   (case factorial n of
                      Fault f \<Rightarrow> Fault f
                    | Returns v \<Rightarrow> Returns (v, error))))
      else if func = ''sin'' then Returns (sin (degrees_to_radians a), error)
      else if func = ''cos'' then Returns (cos (degrees_to_radians a), error)
      else if func = ''tan'' then Returns (tan (degrees_to_radians a), error)
      else Returns (0, 1))"

subsection \<open>Tokenization\<close>

text \<open>
  \<^verbatim>\<open>sscanf(p, "%lf", &v)\<close> as C99 specifies it for a text that starts with a digit or a
  point: the input item is the longest prefix of the text that is a prefix of a
  floating constant in the format of \<^verbatim>\<open>strtod\<close> (decimal with an optional exponent, or
  hexadecimal after \<^verbatim>\<open>0x\<close> with an optional binary exponent). If the item is a
  complete constant its value is stored; otherwise (\<^verbatim>\<open>1e\<close>, \<^verbatim>\<open>0x\<close>) the standard lets
  the conversion fail with nothing stored, and C libraries differ in what they do: this
  is \<open>None\<close>, on which the model stops. The source ignores the return value of
  \<^verbatim>\<open>sscanf\<close>.
\<close>

definition digit_val :: "char \<Rightarrow> nat" where
  "digit_val c =
     (if isdigit c then of_char c - 48
      else if c \<in> set ''abcdef'' then of_char c - 87
      else of_char c - 55)"

definition digits_val :: "nat \<Rightarrow> string \<Rightarrow> nat" where
  "digits_val base ds = foldl (\<lambda>n c. base * n + digit_val c) 0 ds"

definition mantissa :: "nat \<Rightarrow> string \<Rightarrow> string \<Rightarrow> real" where
  "mantissa base ip fp =
     of_nat (digits_val base ip) + of_nat (digits_val base fp) / of_nat base ^ length fp"

text \<open>The exponent part after the mantissa: \<open>mark\<close> are the letters that introduce it.\<close>

definition scan_exponent :: "string \<Rightarrow> real \<Rightarrow> real \<Rightarrow> string \<Rightarrow> real option" where
  "scan_exponent mark radix m r =
     (if r \<noteq> [] \<and> hd r \<in> set mark then
        (let r1 = tl r;
             neg = (r1 \<noteq> [] \<and> hd r1 = CHR ''-'');
             r2 = (if r1 \<noteq> [] \<and> (hd r1 = CHR ''+'' \<or> hd r1 = CHR ''-'') then tl r1 else r1);
             es = takeWhile isdigit r2
         in if es = [] then None
            else if neg then Some (m * radix powi (- int (digits_val 10 es)))
            else Some (m * radix powi (int (digits_val 10 es))))
      else Some m)"

definition scan_float :: "(char \<Rightarrow> bool) \<Rightarrow> nat \<Rightarrow> string \<Rightarrow> real \<Rightarrow> string \<Rightarrow> real option" where
  "scan_float isdig base mark radix p =
     (let ip = takeWhile isdig p;
          r1 = dropWhile isdig p;
          fp = (if r1 \<noteq> [] \<and> hd r1 = CHR ''.'' then takeWhile isdig (tl r1) else []);
          r2 = (if r1 \<noteq> [] \<and> hd r1 = CHR ''.'' then dropWhile isdig (tl r1) else r1)
      in if ip = [] \<and> fp = [] then None
         else scan_exponent mark radix (mantissa base ip fp) r2)"

definition sscanf_lf :: "string \<Rightarrow> real option" where
  "sscanf_lf p =
     (case p of
        c0 # c1 # r \<Rightarrow>
          if c0 = CHR ''0'' \<and> (c1 = CHR ''x'' \<or> c1 = CHR ''X'')
          then scan_float isxdigit 16 ''pP'' 2 r
          else scan_float isdigit 10 ''eE'' 10 p
      | _ \<Rightarrow> scan_float isdigit 10 ''eE'' 10 p)"

text \<open>
  The loop of \<^verbatim>\<open>tokenize\<close>. The first argument is the text from \<^verbatim>\<open>p\<close> on, the second
  the tokens written so far (\<^verbatim>\<open>count\<close> is its length). \<^verbatim>\<open>tokens\<close> is the caller's array
  of \<^verbatim>\<open>MAX_TOKENS\<close> elements, \<^verbatim>\<open>func\<close> a local array of 10 characters; neither write is
  checked by the source. A byte from 0x80 on is a negative \<^verbatim>\<open>char\<close>, on which
  \<^verbatim>\<open>isspace\<close> is not defined.
\<close>

function tokenize_loop :: "string \<Rightarrow> token list \<Rightarrow> real \<Rightarrow> token list option outcome" where
  "tokenize_loop [] tokens last_result = Returns (Some tokens)"
| "tokenize_loop (c # cs) tokens last_result =
     (if c = CHR 0x00 then Returns (Some tokens)
      else if 128 \<le> (of_char c :: nat) then Fault CharRange
      else if isspace c then tokenize_loop cs tokens last_result
      else if isdigit c \<or> (c = CHR ''.'' \<and> isdigit (peek cs)) then
        (if MAX_TOKENS \<le> length tokens then Fault BufferOverrun
         else (case sscanf_lf (c # cs) of
                 None \<Rightarrow> Fault Indeterminate
               | Some v \<Rightarrow>
                   tokenize_loop (dropWhile (\<lambda>d. isdigit d \<or> d = CHR ''.'') cs)
                     (tokens @ [Number v]) last_result))
      else if isalpha c then
        (let func = takeWhile isalpha (c # cs) in
         if 10 \<le> length func then Fault BufferOverrun
         else if MAX_TOKENS \<le> length tokens then Fault BufferOverrun
         else if func = ''Ans''
         then tokenize_loop (dropWhile isalpha cs) (tokens @ [Number last_result]) last_result
         else tokenize_loop (dropWhile isalpha cs) (tokens @ [Function func]) last_result)
      else if c = CHR ''('' then
        (if MAX_TOKENS \<le> length tokens then Fault BufferOverrun
         else tokenize_loop cs (tokens @ [ParenLeft]) last_result)
      else if c = CHR '')'' then
        (if MAX_TOKENS \<le> length tokens then Fault BufferOverrun
         else tokenize_loop cs (tokens @ [ParenRight]) last_result)
      else if c \<in> set ''+-*/%^'' then
        (if MAX_TOKENS \<le> length tokens then Fault BufferOverrun
         else tokenize_loop cs (tokens @ [Operator c]) last_result)
      else Returns None)"
  by pat_completeness auto
termination
  by (relation "measure (\<lambda>(p, tokens, last_result). length p)")
     (auto simp: less_Suc_eq_le length_dropWhile_le)

definition tokenize :: "string \<Rightarrow> real \<Rightarrow> token list option outcome" where
  "tokenize expr last_result = tokenize_loop expr [] last_result"

subsection \<open>Shunting yard: infix to postfix\<close>

text \<open>
  The operator stack is a list with its top at the head; \<^verbatim>\<open>out\<close> is the output written
  so far. \<^verbatim>\<open>stack\<close> has \<^verbatim>\<open>MAX_STACK\<close> elements and \<^verbatim>\<open>out\<close> is the caller's array of
  \<^verbatim>\<open>MAX_TOKENS\<close> elements.
\<close>

definition pops_before :: "token \<Rightarrow> char \<Rightarrow> bool" where
  "pops_before s op =
     (case s of
        Function f \<Rightarrow> True
      | Operator sop \<Rightarrow>
          precedence sop > precedence op \<or>
          (precedence sop = precedence op \<and> \<not> is_right_associative op)
      | _ \<Rightarrow> False)"

text \<open>The \<^verbatim>\<open>while\<close> loop at an operator: the result is the new \<^verbatim>\<open>out\<close> and stack.\<close>

fun pop_operators :: "char \<Rightarrow> token list \<Rightarrow> token list \<Rightarrow> (token list \<times> token list) outcome" where
  "pop_operators op out [] = Returns (out, [])"
| "pop_operators op out (s # stack) =
     (if pops_before s op then
        (if MAX_TOKENS \<le> length out then Fault BufferOverrun
         else pop_operators op (out @ [s]) stack)
      else Returns (out, s # stack))"

text \<open>The \<^verbatim>\<open>while\<close> loop at a right parenthesis.\<close>

fun pop_to_paren :: "token list \<Rightarrow> token list \<Rightarrow> (token list \<times> token list) outcome" where
  "pop_to_paren out [] = Returns (out, [])"
| "pop_to_paren out (s # stack) =
     (if s \<noteq> ParenLeft then
        (if MAX_TOKENS \<le> length out then Fault BufferOverrun
         else pop_to_paren (out @ [s]) stack)
      else Returns (out, s # stack))"

text \<open>The final \<^verbatim>\<open>while\<close> loop, which empties the stack.\<close>

fun drain :: "token list \<Rightarrow> token list \<Rightarrow> token list option outcome" where
  "drain out [] = Returns (Some out)"
| "drain out (s # stack) =
     (if s = ParenLeft then Returns None
      else if MAX_TOKENS \<le> length out then Fault BufferOverrun
      else drain (out @ [s]) stack)"

definition push :: "token \<Rightarrow> token list \<Rightarrow> token list outcome" where
  "push t stack = (if MAX_STACK \<le> length stack then Fault BufferOverrun else Returns (t # stack))"

fun to_postfix_loop :: "token list \<Rightarrow> token list \<Rightarrow> token list \<Rightarrow> token list option outcome" where
  "to_postfix_loop [] out stack = drain out stack"
| "to_postfix_loop (t # ts) out stack =
     (case t of
        Number v \<Rightarrow>
          if MAX_TOKENS \<le> length out then Fault BufferOverrun
          else to_postfix_loop ts (out @ [t]) stack
      | Function f \<Rightarrow>
          (case push t stack of
             Fault x \<Rightarrow> Fault x
           | Returns stack' \<Rightarrow> to_postfix_loop ts out stack')
      | Operator op \<Rightarrow>
          (case pop_operators op out stack of
             Fault x \<Rightarrow> Fault x
           | Returns (out', stack') \<Rightarrow>
               (case push t stack' of
                  Fault x \<Rightarrow> Fault x
                | Returns stack'' \<Rightarrow> to_postfix_loop ts out' stack''))
      | ParenLeft \<Rightarrow>
          (case push t stack of
             Fault x \<Rightarrow> Fault x
           | Returns stack' \<Rightarrow> to_postfix_loop ts out stack')
      | ParenRight \<Rightarrow>
          (case pop_to_paren out stack of
             Fault x \<Rightarrow> Fault x
           | Returns (out', []) \<Rightarrow> Returns None
           | Returns (out', paren # stack') \<Rightarrow>
               (case stack' of
                  Function f # stack'' \<Rightarrow>
                    if MAX_TOKENS \<le> length out' then Fault BufferOverrun
                    else to_postfix_loop ts (out' @ [Function f]) stack''
                | _ \<Rightarrow> to_postfix_loop ts out' stack')))"

definition to_postfix :: "token list \<Rightarrow> token list option outcome" where
  "to_postfix ts = to_postfix_loop ts [] []"

subsection \<open>Evaluation of the postfix sequence\<close>

text \<open>
  The value stack is a list with its top at the head. After an error of
  \<^verbatim>\<open>apply_operator\<close> or \<^verbatim>\<open>apply_function\<close> the loop goes on with the value 0 they returned
  and the flag set; only a stack underflow returns at once. Parenthesis tokens match no
  branch and are skipped.
\<close>

fun eval_postfix_loop :: "token list \<Rightarrow> real list \<Rightarrow> int \<Rightarrow> (real \<times> int) outcome" where
  "eval_postfix_loop [] stack error =
     (if length stack \<noteq> 1 then Returns (0, 1) else Returns (last stack, error))"
| "eval_postfix_loop (t # ts) stack error =
     (case t of
        Number v \<Rightarrow>
          if MAX_STACK \<le> length stack then Fault BufferOverrun
          else eval_postfix_loop ts (v # stack) error
      | Operator op \<Rightarrow>
          (case stack of
             b # a # stack' \<Rightarrow>
               (case apply_operator op a b error of
                  Fault x \<Rightarrow> Fault x
                | Returns (v, error') \<Rightarrow> eval_postfix_loop ts (v # stack') error')
           | _ \<Rightarrow> Returns (0, 1))
      | Function f \<Rightarrow>
          (case stack of
             a # stack' \<Rightarrow>
               (case apply_function f a error of
                  Fault x \<Rightarrow> Fault x
                | Returns (v, error') \<Rightarrow> eval_postfix_loop ts (v # stack') error')
           | [] \<Rightarrow> Returns (0, 1))
      | _ \<Rightarrow> eval_postfix_loop ts stack error)"

definition eval_postfix :: "token list \<Rightarrow> int \<Rightarrow> (real \<times> int) outcome" where
  "eval_postfix tokens error = eval_postfix_loop tokens [] error"

subsection \<open>The pipeline\<close>

definition evaluate_expression :: "string \<Rightarrow> real \<Rightarrow> int \<Rightarrow> (real \<times> int) outcome" where
  "evaluate_expression expr last_result error =
     (case tokenize expr last_result of
        Fault x \<Rightarrow> Fault x
      | Returns None \<Rightarrow> Returns (0, 1)
      | Returns (Some tokens) \<Rightarrow>
          (case to_postfix tokens of
             Fault x \<Rightarrow> Fault x
           | Returns None \<Rightarrow> Returns (0, 1)
           | Returns (Some postfix) \<Rightarrow> eval_postfix postfix error))"

section \<open>Notions the properties are stated with\<close>

subsection \<open>Well-formed arithmetic expressions\<close>

text \<open>
  An arithmetic expression without functions, as a tree: a numeric literal (its text), the
  identifier \<^verbatim>\<open>Ans\<close>, a binary operation, a parenthesised expression, and an expression
  with white space before and after it. \<open>text_of\<close> is the text the user types.
\<close>

datatype expr =
    Lit string
  | Ans
  | Bin expr char expr
  | Par expr
  | Pad string expr string

fun text_of :: "expr \<Rightarrow> string" where
  "text_of (Lit s) = s"
| "text_of Ans = ''Ans''"
| "text_of (Bin l c r) = text_of l @ [c] @ text_of r"
| "text_of (Par e) = ''('' @ text_of e @ '')''"
| "text_of (Pad a e b) = a @ text_of e @ b"

text \<open>
  The precedence level at which an expression stands: that of its operator, and 4 (above
  every operator) for a literal, \<^verbatim>\<open>Ans\<close> and a parenthesised expression.
\<close>

fun level :: "expr \<Rightarrow> int" where
  "level (Bin l c r) = precedence c"
| "level (Pad a e b) = level e"
| "level e = 4"

text \<open>
  A numeric literal: digits with at most one decimal point and at least one digit, that
  is \<^verbatim>\<open>12\<close>, \<^verbatim>\<open>12.\<close>, \<^verbatim>\<open>12.5\<close> or \<^verbatim>\<open>.5\<close>; and the number it denotes.
\<close>

definition is_literal :: "string \<Rightarrow> bool" where
  "is_literal s =
     (let ip = takeWhile isdigit s; r = dropWhile isdigit s
      in if r = [] then ip \<noteq> []
         else hd r = CHR ''.'' \<and> list_all isdigit (tl r) \<and> (ip \<noteq> [] \<or> tl r \<noteq> []))"

fun decimal :: "string \<Rightarrow> nat" where
  "decimal [] = 0"
| "decimal (c # cs) = (of_char c - 48) * 10 ^ length cs + decimal cs"

definition literal_value :: "string \<Rightarrow> real" where
  "literal_value s =
     (let ip = takeWhile isdigit s; fp = drop (Suc (length ip)) s
      in of_nat (decimal ip) + of_nat (decimal fp) / 10 ^ length fp)"

text \<open>
  The tree is the reading of its text under the precedence table when every operand stands
  high enough: the left operand of a left-associative operator at the operator's level or
  above and its right operand strictly above, and the other way round for the
  right-associative \<^verbatim>\<open>^\<close>. Anything lower has to be parenthesised.
\<close>

fun well_formed :: "expr \<Rightarrow> bool" where
  "well_formed (Lit s) = is_literal s"
| "well_formed Ans = True"
| "well_formed (Bin l c r) =
     (c \<in> set ''+-*/%^'' \<and> well_formed l \<and> well_formed r \<and>
      (if is_right_associative c
       then precedence c < level l \<and> precedence c \<le> level r
       else precedence c \<le> level l \<and> precedence c < level r))"
| "well_formed (Par e) = well_formed e"
| "well_formed (Pad a e b) = (list_all isspace a \<and> list_all isspace b \<and> well_formed e)"

text \<open>The tokens of the text of an expression, and the expression in postfix order.\<close>

fun tokens_of :: "real \<Rightarrow> expr \<Rightarrow> token list" where
  "tokens_of lr (Lit s) = [Number (literal_value s)]"
| "tokens_of lr Ans = [Number lr]"
| "tokens_of lr (Bin l c r) = tokens_of lr l @ [Operator c] @ tokens_of lr r"
| "tokens_of lr (Par e) = [ParenLeft] @ tokens_of lr e @ [ParenRight]"
| "tokens_of lr (Pad a e b) = tokens_of lr e"

fun postfix_of :: "real \<Rightarrow> expr \<Rightarrow> token list" where
  "postfix_of lr (Lit s) = [Number (literal_value s)]"
| "postfix_of lr Ans = [Number lr]"
| "postfix_of lr (Bin l c r) = postfix_of lr l @ postfix_of lr r @ [Operator c]"
| "postfix_of lr (Par e) = postfix_of lr e"
| "postfix_of lr (Pad a e b) = postfix_of lr e"

text \<open>
  Direct evaluation of the tree, operands first and left to right, each operator applied
  by \<^verbatim>\<open>apply_operator\<close> with the error flag passed along.
\<close>

fun direct :: "real \<Rightarrow> expr \<Rightarrow> int \<Rightarrow> (real \<times> int) outcome" where
  "direct lr (Lit s) error = Returns (literal_value s, error)"
| "direct lr Ans error = Returns (lr, error)"
| "direct lr (Bin l c r) error =
     (case direct lr l error of
        Fault x \<Rightarrow> Fault x
      | Returns (a, error1) \<Rightarrow>
          (case direct lr r error1 of
             Fault x \<Rightarrow> Fault x
           | Returns (b, error2) \<Rightarrow> apply_operator c a b error2))"
| "direct lr (Par e) error = direct lr e error"
| "direct lr (Pad a e b) error = direct lr e error"

text \<open>
  Direct arithmetic evaluation as the specification words it, with the arithmetic of the
  operator table written out: sum, difference, product, quotient (none by zero), the
  remainder of the truncated operands with a truncating quotient (none by zero, nor
  outside \<^verbatim>\<open>int\<close>), and the power.
\<close>

definition binary :: "char \<Rightarrow> real \<Rightarrow> real \<Rightarrow> real option" where
  "binary c a b =
     (if c = CHR ''+'' then Some (a + b)
      else if c = CHR ''-'' then Some (a - b)
      else if c = CHR ''*'' then Some (a * b)
      else if c = CHR ''/'' then (if b = 0 then None else Some (a / b))
      else if c = CHR ''%'' then
        (case (double_to_int a, double_to_int b) of
           (Some ia, Some ib) \<Rightarrow>
             if ib = 0 \<or> (ia = INT_MIN \<and> ib = - 1) then None
             else Some (of_int (ia - ib * truncate (of_int ia / of_int ib)))
         | _ \<Rightarrow> None)
      else if c = CHR ''^'' then pow a b
      else None)"

fun arith :: "real \<Rightarrow> expr \<Rightarrow> real option" where
  "arith lr (Lit s) = Some (literal_value s)"
| "arith lr Ans = Some lr"
| "arith lr (Bin l c r) =
     (case arith lr l of
        None \<Rightarrow> None
      | Some a \<Rightarrow> (case arith lr r of None \<Rightarrow> None | Some b \<Rightarrow> binary c a b))"
| "arith lr (Par e) = arith lr e"
| "arith lr (Pad a e b) = arith lr e"

text \<open>The text \<^verbatim>\<open>3 + 4 * 2\<close> as a tree.\<close>

definition sample_expr :: expr where
  "sample_expr =
     Bin (Pad [] (Lit ''3'') '' '') (CHR ''+'')
       (Bin (Pad '' '' (Lit ''4'') '' '') (CHR ''*'') (Pad '' '' (Lit ''2'') []))"

subsection \<open>The state of the conversion inside a well-formed expression\<close>

text \<open>
  When the converter has read the tokens of an expression, \<open>emitted\<close> is what it has added
  to the output and \<open>pending\<close> what it has left on the operator stack, top first: the
  operators on the right spine of the tree.
\<close>

fun emitted :: "real \<Rightarrow> expr \<Rightarrow> token list" where
  "emitted lr (Bin l c r) = postfix_of lr l @ emitted lr r"
| "emitted lr (Pad a e b) = emitted lr e"
| "emitted lr e = postfix_of lr e"

fun pending :: "expr \<Rightarrow> token list" where
  "pending (Bin l c r) = pending r @ [Operator c]"
| "pending (Pad a e b) = pending e"
| "pending e = []"

text \<open>
  A stack \<open>resists\<close> level \<open>k\<close> when no operator of an expression at that level pops its
  top: the stack is empty, or its top is a left parenthesis or an operator that binds
  less (or equally, for the right-associative level 3).
\<close>

definition resists :: "token list \<Rightarrow> int \<Rightarrow> bool" where
  "resists st k =
     (case st of
        [] \<Rightarrow> True
      | ParenLeft # _ \<Rightarrow> True
      | Operator sop # _ \<Rightarrow> precedence sop < k \<or> (precedence sop = 3 \<and> k = 3)
      | _ \<Rightarrow> False)"

text \<open>A text that cannot continue a literal or an identifier that stands before it.\<close>

definition follow :: "string \<Rightarrow> bool" where
  "follow rest =
     (case rest of [] \<Rightarrow> True | c # _ \<Rightarrow> \<not> isdigit c \<and> c \<noteq> CHR ''.'' \<and> \<not> isalpha c)"

subsection \<open>Balanced parentheses\<close>

text \<open>
  The nesting depth after a token sequence, from depth \<open>d\<close>; \<open>None\<close> when a right
  parenthesis comes at depth 0. A sequence is balanced when it ends at depth 0.
\<close>

fun paren_depth :: "token list \<Rightarrow> nat \<Rightarrow> nat option" where
  "paren_depth [] d = Some d"
| "paren_depth (ParenLeft # ts) d = paren_depth ts (Suc d)"
| "paren_depth (ParenRight # ts) d = (case d of 0 \<Rightarrow> None | Suc d' \<Rightarrow> paren_depth ts d')"
| "paren_depth (t # ts) d = paren_depth ts d"

definition balanced :: "token list \<Rightarrow> bool" where
  "balanced ts = (paren_depth ts 0 = Some 0)"

subsection \<open>The function registry\<close>

text \<open>The names \<^verbatim>\<open>apply_function\<close> compares its argument with, in its order.\<close>

definition function_names :: "string list" where
  "function_names =
     [''sqrt'', ''abs'', ''ln'', ''log'', ''exp'', ''fact'', ''sin'', ''cos'', ''tan'']"

section \<open>Evaluation of concrete inputs\<close>

text \<open>
  The definitions compute: the lemma collections below are what the simplifier needs to
  run the three stages on a concrete text.
\<close>

lemmas ctype_defs = isspace_def isdigit_def isalpha_def isxdigit_def peek_def

lemmas sscanf_defs =
  sscanf_lf_def scan_float_def scan_exponent_def mantissa_def digits_val_def digit_val_def

lemmas postfix_defs =
  pops_before_def precedence_def is_right_associative_def push_def MAX_TOKENS_def
  MAX_STACK_def

lemmas pipeline_defs =
  evaluate_expression_def tokenize_def to_postfix_def eval_postfix_def apply_operator_def

lemmas int_defs = double_to_int_def truncate_def INT_MIN_def INT_MAX_def

lemmas expr_defs = is_literal_def literal_value_def binary_def sample_expr_def

section \<open>The converter on arbitrary tokens\<close>

text \<open>
  The three inner loops keep the number of left parentheses on the stack, and within the
  capacity of the arrays none of them overruns. So the conversion fails exactly when the
  depth of the parentheses, counted from the ones on the stack, does not end at 0.
\<close>

lemma pop_operators_shape:
  "length out + length st \<le> MAX_TOKENS \<Longrightarrow>
   \<exists>out' st'. pop_operators c out st = Returns (out', st') \<and>
     length out' + length st' = length out + length st \<and>
     count_list st ParenLeft = count_list st' ParenLeft"
proof (induction st arbitrary: out)
  case Nil
  then show ?case by simp
next
  case (Cons s st)
  show ?case
  proof (cases "pops_before s c")
    case True
    then have "s \<noteq> ParenLeft" by (auto simp: pops_before_def)
    moreover from Cons.prems have "length (out @ [s]) + length st \<le> MAX_TOKENS" by simp
    from Cons.IH [OF this] obtain out' st' where
      "pop_operators c (out @ [s]) st = Returns (out', st')"
      "length out' + length st' = length (out @ [s]) + length st"
      "count_list st ParenLeft = count_list st' ParenLeft" by blast
    ultimately show ?thesis using True Cons.prems by simp
  next
    case False
    then show ?thesis by simp
  qed
qed

lemma pop_to_paren_shape:
  "length out + length st \<le> MAX_TOKENS \<Longrightarrow>
   \<exists>out' st'. pop_to_paren out st = Returns (out', st') \<and>
     length out' + length st' = length out + length st \<and>
     count_list st ParenLeft = count_list st' ParenLeft \<and>
     (case st' of [] \<Rightarrow> True | s # _ \<Rightarrow> s = ParenLeft)"
proof (induction st arbitrary: out)
  case Nil
  then show ?case by simp
next
  case (Cons s st)
  show ?case
  proof (cases "s = ParenLeft")
    case True
    then show ?thesis by simp
  next
    case False
    from Cons.prems have "length (out @ [s]) + length st \<le> MAX_TOKENS" by simp
    from Cons.IH [OF this] obtain out' st' where
      "pop_to_paren (out @ [s]) st = Returns (out', st')"
      "length out' + length st' = length (out @ [s]) + length st"
      "count_list st ParenLeft = count_list st' ParenLeft"
      "(case st' of [] \<Rightarrow> True | s # _ \<Rightarrow> s = ParenLeft)" by blast
    then show ?thesis using False Cons.prems by simp
  qed
qed

lemma drain_result:
  "length out + length st \<le> MAX_TOKENS \<Longrightarrow>
   drain out st =
     (if count_list st ParenLeft = 0 then Returns (Some (out @ st)) else Returns None)"
proof (induction st arbitrary: out)
  case Nil
  then show ?case by simp
next
  case (Cons s st)
  from Cons.prems have "length (out @ [s]) + length st \<le> MAX_TOKENS" by simp
  from Cons.IH [OF this] Cons.prems show ?case by simp
qed

lemma to_postfix_loop_fails_iff:
  "length out + length st + length ts \<le> MAX_TOKENS \<Longrightarrow>
   (\<exists>r. to_postfix_loop ts out st = Returns r) \<and>
   (to_postfix_loop ts out st = Returns None) =
     (paren_depth ts (count_list st ParenLeft) \<noteq> Some 0)"
proof (induction ts arbitrary: out st)
  case Nil
  then show ?case by (simp add: drain_result)
next
  case (Cons t ts)
  show ?case
  proof (cases t)
    case (Number v)
    from Cons.prems have "length (out @ [t]) + length st + length ts \<le> MAX_TOKENS" by simp
    from Cons.IH [OF this] Cons.prems show ?thesis
      using Number by simp
  next
    case (Operator c)
    from Cons.prems have "length out + length st \<le> MAX_TOKENS" by simp
    from pop_operators_shape [OF this, of c] obtain out' st' where
      p: "pop_operators c out st = Returns (out', st')"
      "length out' + length st' = length out + length st"
      "count_list st ParenLeft = count_list st' ParenLeft" by blast
    with Cons.prems have "length out' + length (t # st') + length ts \<le> MAX_TOKENS" by simp
    from Cons.IH [OF this] p Cons.prems show ?thesis
      using Operator by (simp add: push_def MAX_TOKENS_def MAX_STACK_def)
  next
    case (Function f)
    from Cons.prems have "length out + length (t # st) + length ts \<le> MAX_TOKENS" by simp
    from Cons.IH [OF this] Cons.prems show ?thesis
      using Function by (simp add: push_def MAX_TOKENS_def MAX_STACK_def)
  next
    case ParenLeft
    from Cons.prems have "length out + length (t # st) + length ts \<le> MAX_TOKENS" by simp
    from Cons.IH [OF this] Cons.prems show ?thesis
      using ParenLeft by (simp add: push_def MAX_TOKENS_def MAX_STACK_def)
  next
    case ParenRight
    from Cons.prems have "length out + length st \<le> MAX_TOKENS" by simp
    from pop_to_paren_shape [OF this] obtain out' st' where
      p: "pop_to_paren out st = Returns (out', st')"
      "length out' + length st' = length out + length st"
      "count_list st ParenLeft = count_list st' ParenLeft"
      "(case st' of [] \<Rightarrow> True | s # _ \<Rightarrow> s = ParenLeft)" by blast
    show ?thesis
    proof (cases st')
      case Nil
      with p show ?thesis using ParenRight by simp
    next
      case (Cons s st'')
      with p have s: "s = ParenLeft" by simp
      show ?thesis
      proof (cases "\<exists>f st3. st'' = Function f # st3")
        case True
        then obtain f st3 where f: "st'' = Function f # st3" by blast
        with p Cons Cons.prems
        have "length (out' @ [Function f]) + length st3 + length ts \<le> MAX_TOKENS" by simp
        from Cons.IH [OF this] p Cons s f Cons.prems show ?thesis
          using ParenRight by (simp add: MAX_TOKENS_def)
      next
        case False
        then have other: "(case st'' of Function f # st3 \<Rightarrow> a f st3 | _ \<Rightarrow> b) = b" for a b
          by (cases st'') (auto split: token.splits)
        from p Cons Cons.prems
        have "length out' + length st'' + length ts \<le> MAX_TOKENS" by simp
        from Cons.IH [OF this] p Cons s Cons.prems show ?thesis
          using ParenRight by (simp add: other)
      qed
    qed
  qed
qed

section \<open>The tokenizer, branch by branch\<close>

text \<open>
  One equation for each branch of the loop of \<^verbatim>\<open>tokenize\<close>, under the condition that
  selects the branch; and the bound on the number of tokens of a run that returns.
\<close>

lemma isspace_facts:
  "isspace c \<Longrightarrow> c \<noteq> CHR 0x00 \<and> \<not> 128 \<le> (of_char c :: nat) \<and> \<not> isdigit c \<and> \<not> isalpha c \<and> c \<noteq> CHR ''.''"
  unfolding isspace_def isdigit_def isalpha_def by auto

lemma isdigit_facts:
  "isdigit c \<Longrightarrow> c \<noteq> CHR 0x00 \<and> \<not> 128 \<le> (of_char c :: nat) \<and> \<not> isspace c \<and> \<not> isalpha c \<and> c \<noteq> CHR ''.''"
  unfolding isspace_def isdigit_def isalpha_def by auto

lemma isalpha_facts:
  "isalpha c \<Longrightarrow> c \<noteq> CHR 0x00 \<and> \<not> 128 \<le> (of_char c :: nat) \<and> \<not> isspace c \<and> \<not> isdigit c \<and> c \<noteq> CHR ''.''"
  unfolding isspace_def isdigit_def isalpha_def by auto

lemma point_facts:
  "c = CHR ''.'' \<Longrightarrow> c \<noteq> CHR 0x00 \<and> \<not> 128 \<le> (of_char c :: nat) \<and> \<not> isspace c \<and> \<not> isdigit c \<and> \<not> isalpha c"
  unfolding isspace_def isdigit_def isalpha_def by auto

lemma tokenize_loop_space:
  "isspace c \<Longrightarrow> tokenize_loop (c # cs) toks lr = tokenize_loop cs toks lr"
  using isspace_facts [of c] by simp

lemma tokenize_loop_number:
  assumes "isdigit c \<or> (c = CHR ''.'' \<and> isdigit (peek cs))"
  shows "tokenize_loop (c # cs) toks lr =
    (if MAX_TOKENS \<le> length toks then Fault BufferOverrun
     else (case sscanf_lf (c # cs) of
             None \<Rightarrow> Fault Indeterminate
           | Some v \<Rightarrow>
               tokenize_loop (dropWhile (\<lambda>d. isdigit d \<or> d = CHR ''.'') cs)
                 (toks @ [Number v]) lr))"
proof -
  from assms isdigit_facts [of c] point_facts [of c]
  have "c \<noteq> CHR 0x00" "\<not> 128 \<le> (of_char c :: nat)" "\<not> isspace c" by auto
  with assms show ?thesis by (subst tokenize_loop.simps) (simp only: if_False if_True)
qed

lemma tokenize_loop_alpha:
  assumes "isalpha c"
  shows "tokenize_loop (c # cs) toks lr =
    (if 10 \<le> length (takeWhile isalpha (c # cs)) then Fault BufferOverrun
     else if MAX_TOKENS \<le> length toks then Fault BufferOverrun
     else if takeWhile isalpha (c # cs) = ''Ans''
     then tokenize_loop (dropWhile isalpha cs) (toks @ [Number lr]) lr
     else tokenize_loop (dropWhile isalpha cs) (toks @ [Function (takeWhile isalpha (c # cs))]) lr)"
proof -
  from assms isalpha_facts [of c]
  have "c \<noteq> CHR 0x00" "\<not> 128 \<le> (of_char c :: nat)" "\<not> isspace c"
    "\<not> (isdigit c \<or> (c = CHR ''.'' \<and> isdigit (peek cs)))" by auto
  with assms show ?thesis by (subst tokenize_loop.simps) (simp only: if_False if_True Let_def)
qed

lemma operator_facts:
  "c \<in> set ''+-*/%^'' \<Longrightarrow> c \<noteq> CHR 0x00 \<and> \<not> 128 \<le> (of_char c :: nat) \<and> \<not> isspace c \<and>
     \<not> isdigit c \<and> \<not> isalpha c \<and> c \<noteq> CHR ''.'' \<and> c \<noteq> CHR ''('' \<and> c \<noteq> CHR '')''"
  unfolding isspace_def isdigit_def isalpha_def by auto

lemma tokenize_loop_other:
  assumes "c \<noteq> CHR 0x00" "\<not> 128 \<le> (of_char c :: nat)" "\<not> isspace c" "\<not> isdigit c"
    "c \<noteq> CHR ''.'' \<or> \<not> isdigit (peek cs)" "\<not> isalpha c"
  shows "tokenize_loop (c # cs) toks lr =
    (if c = CHR ''('' then
        (if MAX_TOKENS \<le> length toks then Fault BufferOverrun
         else tokenize_loop cs (toks @ [ParenLeft]) lr)
      else if c = CHR '')'' then
        (if MAX_TOKENS \<le> length toks then Fault BufferOverrun
         else tokenize_loop cs (toks @ [ParenRight]) lr)
      else if c \<in> set ''+-*/%^'' then
        (if MAX_TOKENS \<le> length toks then Fault BufferOverrun
         else tokenize_loop cs (toks @ [Operator c]) lr)
      else Returns None)"
proof -
  from assms have "\<not> (isdigit c \<or> (c = CHR ''.'' \<and> isdigit (peek cs)))" by auto
  with assms show ?thesis by (subst tokenize_loop.simps) (simp only: if_False if_True)
qed

lemma tokenize_loop_operator:
  assumes "c \<in> set ''+-*/%^''"
  shows "tokenize_loop (c # cs) toks lr =
    (if MAX_TOKENS \<le> length toks then Fault BufferOverrun
     else tokenize_loop cs (toks @ [Operator c]) lr)"
  using operator_facts [OF assms] assms by (subst tokenize_loop_other) simp_all

lemma tokenize_loop_paren_left:
  "tokenize_loop (CHR ''('' # cs) toks lr =
    (if MAX_TOKENS \<le> length toks then Fault BufferOverrun
     else tokenize_loop cs (toks @ [ParenLeft]) lr)"
  by (subst tokenize_loop_other) (simp_all add: ctype_defs)

lemma tokenize_loop_paren_right:
  "tokenize_loop (CHR '')'' # cs) toks lr =
    (if MAX_TOKENS \<le> length toks then Fault BufferOverrun
     else tokenize_loop cs (toks @ [ParenRight]) lr)"
  by (subst tokenize_loop_other) (simp_all add: ctype_defs)

lemma tokenize_loop_length:
  "tokenize_loop p toks lr = Returns (Some ts) \<Longrightarrow> length toks \<le> MAX_TOKENS \<Longrightarrow>
   length ts \<le> MAX_TOKENS"
proof (induction p toks lr rule: tokenize_loop.induct)
  case (1 tokens last_result)
  then show ?case by simp
next
  case (2 c cs tokens last_result)
  note res = "2.prems"(1)
  have step: "length (tokens @ [t]) \<le> MAX_TOKENS" if "\<not> MAX_TOKENS \<le> length tokens" for t
    using that by simp
  consider (stop) "c = CHR 0x00 \<or> 128 \<le> (of_char c :: nat)"
    | (space) "c \<noteq> CHR 0x00" "\<not> 128 \<le> (of_char c :: nat)" "isspace c"
    | (number) "c \<noteq> CHR 0x00" "\<not> 128 \<le> (of_char c :: nat)" "\<not> isspace c"
        "isdigit c \<or> (c = CHR ''.'' \<and> isdigit (peek cs))"
    | (alpha) "c \<noteq> CHR 0x00" "\<not> 128 \<le> (of_char c :: nat)" "\<not> isspace c"
        "\<not> (isdigit c \<or> (c = CHR ''.'' \<and> isdigit (peek cs)))" "isalpha c"
    | (other) "c \<noteq> CHR 0x00" "\<not> 128 \<le> (of_char c :: nat)" "\<not> isspace c"
        "\<not> (isdigit c \<or> (c = CHR ''.'' \<and> isdigit (peek cs)))" "\<not> isalpha c"
    by blast
  then show ?case
  proof cases
    case stop
    with res "2.prems"(2) show ?thesis by (auto split: if_splits)
  next
    case space
    with res have "tokenize_loop cs tokens last_result = Returns (Some ts)"
      by (simp add: tokenize_loop_space del: tokenize_loop.simps)
    with space "2.prems"(2) show ?thesis by (intro "2.IH"(1))
  next
    case number
    from res have r: "\<not> MAX_TOKENS \<le> length tokens"
      by (auto simp: tokenize_loop_number [OF number(4)] simp del: tokenize_loop.simps)
    with res obtain v where v: "sscanf_lf (c # cs) = Some v"
      "tokenize_loop (dropWhile (\<lambda>d. isdigit d \<or> d = CHR ''.'') cs)
         (tokens @ [Number v]) last_result = Returns (Some ts)"
      by (auto simp: tokenize_loop_number [OF number(4)] simp del: tokenize_loop.simps
          split: option.splits)
    from number r v step [OF r] show ?thesis by (intro "2.IH"(2))
  next
    case alpha
    let ?func = "takeWhile isalpha (c # cs)"
    from res have r: "\<not> 10 \<le> length ?func" "\<not> MAX_TOKENS \<le> length tokens"
      by (auto simp: tokenize_loop_alpha [OF alpha(5)] simp del: tokenize_loop.simps takeWhile.simps
          split: if_splits)
    show ?thesis
    proof (cases "?func = ''Ans''")
      case True
      with res r
      have "tokenize_loop (dropWhile isalpha cs) (tokens @ [Number last_result]) last_result
          = Returns (Some ts)"
        by (simp add: tokenize_loop_alpha [OF alpha(5)] del: tokenize_loop.simps takeWhile.simps)
      with alpha r True step [OF r(2)] show ?thesis by (intro "2.IH"(3)) (assumption | rule refl)+
    next
      case False
      with res r
      have "tokenize_loop (dropWhile isalpha cs) (tokens @ [Function ?func]) last_result
          = Returns (Some ts)"
        by (simp add: tokenize_loop_alpha [OF alpha(5)] del: tokenize_loop.simps takeWhile.simps)
      with alpha r False step [OF r(2)] show ?thesis by (intro "2.IH"(4)) (assumption | rule refl)+
    qed
  next
    case other
    note unf = tokenize_loop_other [OF other(1,2,3) _ _ other(5), of cs tokens last_result]
    from other(4) have d: "\<not> isdigit c" "c \<noteq> CHR ''.'' \<or> \<not> isdigit (peek cs)" by auto
    note unf = unf [OF d]
    from res have r: "\<not> MAX_TOKENS \<le> length tokens"
      unfolding unf by (auto split: if_splits)
    consider (l) "c = CHR ''(''" | (r) "c \<noteq> CHR ''(''" "c = CHR '')''"
      | (o) "c \<noteq> CHR ''(''" "c \<noteq> CHR '')''" "c \<in> set ''+-*/%^''"
      | (bad) "c \<noteq> CHR ''(''" "c \<noteq> CHR '')''" "c \<notin> set ''+-*/%^''" by blast
    then show ?thesis
    proof cases
      case l
      with res r have "tokenize_loop cs (tokens @ [ParenLeft]) last_result = Returns (Some ts)"
        unfolding unf by simp
      with other l r step [OF r] show ?thesis by (intro "2.IH"(5))
    next
      case r
      with res \<open>\<not> MAX_TOKENS \<le> length tokens\<close>
      have "tokenize_loop cs (tokens @ [ParenRight]) last_result = Returns (Some ts)"
        unfolding unf by simp
      with other r \<open>\<not> MAX_TOKENS \<le> length tokens\<close> step show ?thesis by (intro "2.IH"(6))
    next
      case o
      with res r have "tokenize_loop cs (tokens @ [Operator c]) last_result = Returns (Some ts)"
        unfolding unf by simp
      with other o r step [OF r] show ?thesis by (intro "2.IH"(7))
    next
      case bad
      with res show ?thesis unfolding unf by simp
    qed
  qed
qed

section \<open>Literals\<close>

text \<open>
  On a literal followed by a text that cannot continue it, \<^verbatim>\<open>sscanf\<close> reads the number
  the literal denotes and the loop after it skips exactly the literal.
\<close>

lemma foldl_digits:
  "list_all isdigit ds \<Longrightarrow>
   foldl (\<lambda>n c. 10 * n + digit_val c) n ds = n * 10 ^ length ds + decimal ds"
  by (induction ds arbitrary: n) (simp_all add: digit_val_def algebra_simps)

lemma digits_val_decimal: "list_all isdigit ds \<Longrightarrow> digits_val 10 ds = decimal ds"
  by (simp add: digits_val_def foldl_digits)

lemma takeWhile_digits_follow:
  "list_all isdigit ds \<Longrightarrow> follow rest \<Longrightarrow> takeWhile isdigit (ds @ rest) = ds"
  by (induction ds) (auto simp: follow_def split: list.splits)

lemma dropWhile_digits_follow:
  "list_all isdigit ds \<Longrightarrow> follow rest \<Longrightarrow> dropWhile isdigit (ds @ rest) = rest"
  by (induction ds) (auto simp: follow_def split: list.splits)

lemma is_literal_cases:
  assumes "is_literal s"
  obtains (whole) "s \<noteq> []" "list_all isdigit s"
  | (point) ip fp where "s = ip @ CHR ''.'' # fp" "list_all isdigit ip" "list_all isdigit fp"
      "ip \<noteq> [] \<or> fp \<noteq> []"
proof (cases "dropWhile isdigit s = []")
  case True
  then have "list_all isdigit s" by (simp add: list_all_iff)
  moreover from assms have "if dropWhile isdigit s = [] then takeWhile isdigit s \<noteq> []
    else hd (dropWhile isdigit s) = CHR ''.'' \<and> list_all isdigit (tl (dropWhile isdigit s)) \<and>
      (takeWhile isdigit s \<noteq> [] \<or> tl (dropWhile isdigit s) \<noteq> [])"
    unfolding is_literal_def Let_def .
  with True have "takeWhile isdigit s \<noteq> []" by (simp only: if_True simp_thms)
  then have "s \<noteq> []" by auto
  ultimately show ?thesis using whole by blast
next
  case False
  let ?ip = "takeWhile isdigit s" and ?r = "dropWhile isdigit s"
  from assms have "if ?r = [] then ?ip \<noteq> []
    else hd ?r = CHR ''.'' \<and> list_all isdigit (tl ?r) \<and> (?ip \<noteq> [] \<or> tl ?r \<noteq> [])"
    unfolding is_literal_def Let_def .
  with False have r: "hd ?r = CHR ''.''" "list_all isdigit (tl ?r)" "?ip \<noteq> [] \<or> tl ?r \<noteq> []"
    by (simp_all only: if_False)
  from False r(1) have "?r = CHR ''.'' # tl ?r" by (cases ?r) auto
  then have "s = ?ip @ CHR ''.'' # tl ?r" by (metis takeWhile_dropWhile_id)
  moreover have "list_all isdigit ?ip" by (simp add: list_all_iff) (meson set_takeWhileD)
  ultimately show ?thesis using r point by blast
qed

lemma literal_value_whole:
  "list_all isdigit s \<Longrightarrow> literal_value s = of_nat (decimal s)"
proof -
  assume "list_all isdigit s"
  then have tw: "takeWhile isdigit s = s" by (simp add: list_all_iff)
  show ?thesis unfolding literal_value_def Let_def tw by simp
qed

lemma literal_value_point:
  assumes "list_all isdigit ip" "list_all isdigit fp"
  shows "literal_value (ip @ CHR ''.'' # fp) = of_nat (decimal ip) + of_nat (decimal fp) / 10 ^ length fp"
proof -
  have "takeWhile isdigit (ip @ CHR ''.'' # fp) = ip"
    using assms(1) by (induction ip) (auto simp: isdigit_def)
  then show ?thesis by (simp add: literal_value_def Let_def)
qed

lemma follow_point: "follow rest \<Longrightarrow> \<not> (rest \<noteq> [] \<and> hd rest = CHR ''.'')"
  by (cases rest) (auto simp: follow_def)

lemma digits_val_Nil: "digits_val base [] = 0"
  by (simp add: digits_val_def)

lemma sscanf_lf_decimal:
  assumes "s \<noteq> []" "list_all (\<lambda>c. isdigit c \<or> c = CHR ''.'') s" "follow rest"
  shows "sscanf_lf (s @ rest) = scan_float isdigit 10 ''eE'' 10 (s @ rest)"
proof (cases "s @ rest")
  case Nil
  then show ?thesis by (simp add: sscanf_lf_def)
next
  case outer: (Cons c0 r0)
  show ?thesis
  proof (cases r0)
    case Nil
    with outer show ?thesis by (simp add: sscanf_lf_def)
  next
    case (Cons c1 r1)
    have "\<not> isalpha c1"
    proof (cases s)
      case Nil
      with assms show ?thesis by simp
    next
      case s: (Cons a s')
      show ?thesis
      proof (cases s')
        case Nil
        with s outer Cons assms(3) show ?thesis by (simp add: follow_def)
      next
        case (Cons b s'')
        with s outer \<open>r0 = c1 # r1\<close> assms(2) isdigit_facts [of c1] point_facts [of c1]
        show ?thesis by auto
      qed
    qed
    then have "c1 \<noteq> CHR ''x''" "c1 \<noteq> CHR ''X''" by (auto simp: isalpha_def)
    with outer Cons show ?thesis by (simp add: sscanf_lf_def)
  qed
qed

lemma scan_exponent_follow:
  "follow rest \<Longrightarrow> scan_exponent ''eE'' radix m rest = Some m"
  by (cases rest) (auto simp: scan_exponent_def follow_def isalpha_def)

lemma sscanf_lf_literal:
  assumes "is_literal s" "follow rest"
  shows "sscanf_lf (s @ rest) = Some (literal_value s)"
  using assms(1)
proof (cases rule: is_literal_cases)
  case whole
  then have "list_all (\<lambda>c. isdigit c \<or> c = CHR ''.'') s" by (simp add: list_all_iff)
  from sscanf_lf_decimal [OF whole(1) this assms(2)]
  have "sscanf_lf (s @ rest) = scan_float isdigit 10 ''eE'' 10 (s @ rest)" .
  also have "\<dots> = Some (literal_value s)"
    using whole assms(2)
    by (simp add: scan_float_def takeWhile_digits_follow dropWhile_digits_follow
        scan_exponent_follow mantissa_def digits_val_decimal literal_value_whole follow_point
        digits_val_Nil)
  finally show ?thesis .
next
  case (point ip fp)
  then have "list_all (\<lambda>c. isdigit c \<or> c = CHR ''.'') s" by (auto simp: list_all_iff)
  moreover from point have "s \<noteq> []" by simp
  ultimately have "sscanf_lf (s @ rest) = scan_float isdigit 10 ''eE'' 10 (s @ rest)"
    using assms(2) by (intro sscanf_lf_decimal)
  also have "\<dots> = Some (literal_value s)"
  proof -
    have nd: "\<not> isdigit CHR ''.''" by (simp add: isdigit_def)
    have f: "follow (CHR ''.'' # xs) = False" for xs by (simp add: follow_def)
    have t1: "takeWhile isdigit (ip @ CHR ''.'' # fp @ rest) = ip"
      using point(2) by (induction ip) (auto simp: nd)
    have d1: "dropWhile isdigit (ip @ CHR ''.'' # fp @ rest) = CHR ''.'' # fp @ rest"
      using point(2) by (induction ip) (auto simp: nd)
    show ?thesis
      using point(2-4) assms(2)
      by (simp add: scan_float_def Let_def t1 d1 takeWhile_digits_follow dropWhile_digits_follow
          scan_exponent_follow mantissa_def digits_val_decimal point(1) literal_value_point)
  qed
  finally show ?thesis .
qed

lemma dropWhile_run_follow:
  "list_all (\<lambda>c. isdigit c \<or> c = CHR ''.'') cs \<Longrightarrow> follow rest \<Longrightarrow>
   dropWhile (\<lambda>d. isdigit d \<or> d = CHR ''.'') (cs @ rest) = rest"
  by (induction cs) (auto simp: follow_def split: list.splits)

lemma tokenize_loop_literal:
  assumes "is_literal s" "follow rest"
  shows "tokenize_loop (s @ rest) toks lr =
    (if MAX_TOKENS \<le> length toks then Fault BufferOverrun
     else tokenize_loop rest (toks @ [Number (literal_value s)]) lr)"
proof -
  from assms(1) obtain c cs where s: "s = c # cs"
    by (cases s) (auto simp: is_literal_def)
  from assms(1) have run: "list_all (\<lambda>c. isdigit c \<or> c = CHR ''.'') s"
    by (cases rule: is_literal_cases) (auto simp: list_all_iff)
  from assms(1) have start: "isdigit c \<or> (c = CHR ''.'' \<and> isdigit (peek (cs @ rest)))"
  proof (cases rule: is_literal_cases)
    case whole
    with s show ?thesis by simp
  next
    case (point ip fp)
    show ?thesis
    proof (cases ip)
      case Nil
      with point s have "c = CHR ''.''" "cs = fp" "fp \<noteq> []" by auto
      with point(3) show ?thesis by (cases fp) (auto simp: peek_def)
    next
      case (Cons a ip')
      with point s show ?thesis by auto
    qed
  qed
  from run s have "list_all (\<lambda>c. isdigit c \<or> c = CHR ''.'') cs" by simp
  from dropWhile_run_follow [OF this assms(2)] sscanf_lf_literal [OF assms]
  show ?thesis
    unfolding s append_Cons tokenize_loop_number [OF start] by simp
qed

lemma tokenize_loop_Ans:
  assumes "follow rest"
  shows "tokenize_loop (''Ans'' @ rest) toks lr =
    (if MAX_TOKENS \<le> length toks then Fault BufferOverrun
     else tokenize_loop rest (toks @ [Number lr]) lr)"
proof -
  have a: "isalpha CHR ''A''" "isalpha CHR ''n''" "isalpha CHR ''s''" by (simp_all add: isalpha_def)
  from assms have t: "takeWhile isalpha rest = []" and d: "dropWhile isalpha rest = rest"
    by (cases rest; simp add: follow_def)+
  show ?thesis
    unfolding append_Cons tokenize_loop_alpha [OF a(1)]
    by (simp add: a t d del: tokenize_loop.simps)
qed

lemma tokenize_loop_spaces:
  "list_all isspace a \<Longrightarrow> tokenize_loop (a @ rest) toks lr = tokenize_loop rest toks lr"
  by (induction a) (simp_all add: tokenize_loop_space del: tokenize_loop.simps)

section \<open>The tokenizer on the text of a well-formed expression\<close>

text \<open>The tokenizer turns the text of a well-formed expression into its tokens.\<close>

lemma follow_Cons_operator: "c \<in> set ''+-*/%^'' \<Longrightarrow> follow (c # r)"
  using operator_facts [of c] by (simp add: follow_def)

lemma follow_paren_right: "follow (CHR '')'' # r)"
  by (simp add: follow_def isdigit_def isalpha_def)

lemma follow_spaces: "list_all isspace b \<Longrightarrow> follow rest \<Longrightarrow> follow (b @ rest)"
  using isspace_facts by (cases b) (auto simp: follow_def)

lemma tokens_of_nonempty: "tokens_of lr e \<noteq> []"
  by (induction e) simp_all

lemma tokenize_loop_text_of:
  "well_formed e \<Longrightarrow> follow rest \<Longrightarrow> length toks + length (tokens_of lr e) \<le> MAX_TOKENS \<Longrightarrow>
   tokenize_loop (text_of e @ rest) toks lr = tokenize_loop rest (toks @ tokens_of lr e) lr"
proof (induction e arbitrary: rest toks)
  case (Lit s)
  then show ?case by (simp add: tokenize_loop_literal del: tokenize_loop.simps)
next
  case Ans
  then show ?case
    using tokenize_loop_Ans [of rest toks lr] by (simp del: tokenize_loop.simps)
next
  case (Bin l c r)
  from Bin.prems have c: "c \<in> set ''+-*/%^''" and wf: "well_formed l" "well_formed r"
    by simp_all
  have "tokenize_loop (text_of (Bin l c r) @ rest) toks lr
      = tokenize_loop (text_of l @ (c # text_of r @ rest)) toks lr" by simp
  also have "\<dots> = tokenize_loop (c # text_of r @ rest) (toks @ tokens_of lr l) lr"
    using Bin.prems(3) by (intro Bin.IH(1) wf follow_Cons_operator c) simp
  also have "\<dots> = tokenize_loop (text_of r @ rest) ((toks @ tokens_of lr l) @ [Operator c]) lr"
    using Bin.prems(3) tokens_of_nonempty [of lr r]
    by (cases "tokens_of lr r") (simp_all add: tokenize_loop_operator [OF c] del: tokenize_loop.simps)
  also have "\<dots> = tokenize_loop rest (((toks @ tokens_of lr l) @ [Operator c]) @ tokens_of lr r) lr"
    using Bin.prems(2,3) by (intro Bin.IH(2) wf) simp_all
  finally show ?case by simp
next
  case (Par e)
  have "tokenize_loop (text_of (Par e) @ rest) toks lr
      = tokenize_loop (CHR ''('' # text_of e @ (CHR '')'' # rest)) toks lr" by simp
  also have "\<dots> = tokenize_loop (text_of e @ (CHR '')'' # rest)) (toks @ [ParenLeft]) lr"
    using Par.prems(3) unfolding tokenize_loop_paren_left by simp
  also have "\<dots> = tokenize_loop (CHR '')'' # rest) ((toks @ [ParenLeft]) @ tokens_of lr e) lr"
    using Par.prems by (intro Par.IH follow_paren_right) simp_all
  also have "\<dots> = tokenize_loop rest (((toks @ [ParenLeft]) @ tokens_of lr e) @ [ParenRight]) lr"
    using Par.prems(3) unfolding tokenize_loop_paren_right by simp
  finally show ?case by simp
next
  case (Pad a e b)
  have "tokenize_loop (text_of (Pad a e b) @ rest) toks lr
      = tokenize_loop (a @ (text_of e @ (b @ rest))) toks lr" by simp
  also have "\<dots> = tokenize_loop (text_of e @ (b @ rest)) toks lr"
    using Pad.prems(1) by (intro tokenize_loop_spaces) simp
  also have "\<dots> = tokenize_loop (b @ rest) (toks @ tokens_of lr e) lr"
    using Pad.prems by (intro Pad.IH follow_spaces) simp_all
  also have "\<dots> = tokenize_loop rest (toks @ tokens_of lr e) lr"
    using Pad.prems(1) by (intro tokenize_loop_spaces) simp
  finally show ?case by simp
qed

lemma tokenize_text_of:
  "well_formed e \<Longrightarrow> length (tokens_of lr e) \<le> MAX_TOKENS \<Longrightarrow>
   tokenize (text_of e) lr = Returns (Some (tokens_of lr e))"
  using tokenize_loop_text_of [of e "[]" "[]" lr] by (simp add: tokenize_def follow_def)

section \<open>The converter on the tokens of a well-formed expression\<close>

text \<open>
  Over the tokens of a well-formed expression, on a stack that resists the level of the
  expression, the converter appends \<open>emitted\<close> to the output and leaves \<open>pending\<close> on
  top of the stack; the next operator of the enclosing expression, the closing
  parenthesis or the end of the input then moves \<open>pending\<close> to the output.
\<close>

lemma precedence_operator:
  "c \<in> set ''+-*/%^'' \<Longrightarrow> 1 \<le> precedence c \<and> precedence c \<le> 3 \<and> (precedence c = 3) = (c = CHR ''^'')"
  by (auto simp: precedence_def)

lemma level_le: "level e \<le> 4"
  by (induction e) (auto simp: precedence_def)

lemma resists_mono: "resists st k \<Longrightarrow> k \<le> k' \<Longrightarrow> resists st k'"
  by (auto simp: resists_def split: list.splits token.splits)

lemma resists_not_popped:
  "resists st (precedence c) \<Longrightarrow> c \<in> set ''+-*/%^'' \<Longrightarrow> st = [] \<or> \<not> pops_before (hd st) c"
  using precedence_operator [of c]
  by (cases st) (auto simp: resists_def pops_before_def is_right_associative_def split: token.splits)

lemma pending_atom: "3 < level e \<Longrightarrow> well_formed e \<Longrightarrow> pending e = []"
  by (induction e) (auto simp: precedence_def split: if_splits)

lemma pending_operators:
  "well_formed e \<Longrightarrow>
   list_all (\<lambda>t. \<exists>sop. t = Operator sop \<and> level e \<le> precedence sop) (pending e)"
proof (induction e)
  case (Bin l c r)
  then have "list_all (\<lambda>t. \<exists>sop. t = Operator sop \<and> level r \<le> precedence sop) (pending r)"
    and "precedence c \<le> level r"
    by (auto split: if_splits)
  then have "list_all (\<lambda>t. \<exists>sop. t = Operator sop \<and> precedence c \<le> precedence sop) (pending r)"
    by (auto simp: list_all_iff)
  then show ?case by simp
qed simp_all

lemma emitted_pending: "emitted lr e @ pending e = postfix_of lr e"
  by (induction e) simp_all

lemma length_postfix_of: "length (postfix_of lr e) \<le> length (tokens_of lr e)"
  by (induction e) simp_all

lemma postfix_of_nonempty: "postfix_of lr e \<noteq> []"
  by (induction e) simp_all

lemma pop_operators_pending:
  "list_all (\<lambda>t. pops_before t c) pend \<Longrightarrow> st = [] \<or> \<not> pops_before (hd st) c \<Longrightarrow>
   length out + length pend \<le> MAX_TOKENS \<Longrightarrow>
   pop_operators c out (pend @ st) = Returns (out @ pend, st)"
proof (induction pend arbitrary: out)
  case Nil
  then show ?case by (cases st) auto
next
  case (Cons t pend)
  from Cons.prems have "pop_operators c (out @ [t]) (pend @ st) = Returns ((out @ [t]) @ pend, st)"
    by (intro Cons.IH) simp_all
  with Cons.prems show ?case by simp
qed

lemma pop_to_paren_pending:
  "list_all (\<lambda>t. t \<noteq> ParenLeft) pend \<Longrightarrow> length out + length pend \<le> MAX_TOKENS \<Longrightarrow>
   pop_to_paren out (pend @ ParenLeft # st) = Returns (out @ pend, ParenLeft # st)"
proof (induction pend arbitrary: out)
  case Nil
  then show ?case by simp
next
  case (Cons t pend)
  from Cons.prems have "pop_to_paren (out @ [t]) (pend @ ParenLeft # st)
      = Returns ((out @ [t]) @ pend, ParenLeft # st)"
    by (intro Cons.IH) simp_all
  with Cons.prems show ?case by simp
qed

lemma to_postfix_loop_tokens_of:
  "well_formed e \<Longrightarrow> resists st (level e) \<Longrightarrow>
   length out + length st + length (tokens_of lr e) \<le> MAX_TOKENS \<Longrightarrow>
   to_postfix_loop (tokens_of lr e @ rest) out st =
     to_postfix_loop rest (out @ emitted lr e) (pending e @ st)"
proof (induction e arbitrary: out st rest)
  case (Lit s)
  then show ?case by simp
next
  case Ans
  then show ?case by simp
next
  case (Bin l c r)
  from Bin.prems(1) have c: "c \<in> set ''+-*/%^''" and wf: "well_formed l" "well_formed r"
    and lv: "if is_right_associative c
       then precedence c < level l \<and> precedence c \<le> level r
       else precedence c \<le> level l \<and> precedence c < level r"
    by simp_all
  note pc = precedence_operator [OF c]
  from Bin.prems(2) have rs: "resists st (precedence c)" by simp
  from lv have ll: "precedence c \<le> level l" by (auto split: if_splits)
  have len: "length (emitted lr l) + length (pending l) \<le> length (tokens_of lr l)"
    using length_postfix_of [of lr l] emitted_pending [of lr l, symmetric] by simp
  have "to_postfix_loop (tokens_of lr (Bin l c r) @ rest) out st
      = to_postfix_loop (tokens_of lr l @ (Operator c # tokens_of lr r @ rest)) out st" by simp
  also have "\<dots> = to_postfix_loop (Operator c # tokens_of lr r @ rest)
      (out @ emitted lr l) (pending l @ st)"
    using Bin.prems(3) by (intro Bin.IH(1) wf resists_mono [OF rs ll]) simp
  also have "\<dots> = to_postfix_loop (tokens_of lr r @ rest)
      (out @ emitted lr l @ pending l) (Operator c # st)"
  proof -
    have "list_all (\<lambda>t. pops_before t c) (pending l)"
    proof (cases "c = CHR ''^''")
      case True
      with lv pc have "3 < level l" by (simp add: is_right_associative_def)
      with wf show ?thesis by (simp add: pending_atom)
    next
      case False
      with pending_operators [OF wf(1)] ll pc show ?thesis
        by (fastforce simp: list_all_iff pops_before_def is_right_associative_def)
    qed
    moreover have "length (out @ emitted lr l) + length (pending l) \<le> MAX_TOKENS"
      using Bin.prems(3) len by simp
    ultimately have "pop_operators c (out @ emitted lr l) (pending l @ st)
        = Returns ((out @ emitted lr l) @ pending l, st)"
      using resists_not_popped [OF rs c] by (intro pop_operators_pending)
    moreover have "\<not> MAX_STACK \<le> length st"
      using Bin.prems(3) by (simp add: MAX_TOKENS_def MAX_STACK_def)
    ultimately show ?thesis by (simp add: push_def)
  qed
  also have "\<dots> = to_postfix_loop rest
      ((out @ emitted lr l @ pending l) @ emitted lr r) (pending r @ Operator c # st)"
  proof (intro Bin.IH(2) wf)
    show "resists (Operator c # st) (level r)"
      using lv pc level_le [of r] by (auto simp: resists_def is_right_associative_def split: if_splits)
    show "length (out @ emitted lr l @ pending l) + length (Operator c # st)
        + length (tokens_of lr r) \<le> MAX_TOKENS"
      using Bin.prems(3) len by simp
  qed
  finally show ?case by (simp add: emitted_pending)
next
  case (Par e)
  have len: "length (emitted lr e) + length (pending e) \<le> length (tokens_of lr e)"
    using length_postfix_of [of lr e] emitted_pending [of lr e, symmetric] by simp
  have "to_postfix_loop (tokens_of lr (Par e) @ rest) out st
      = to_postfix_loop (ParenLeft # tokens_of lr e @ (ParenRight # rest)) out st" by simp
  also have "\<dots> = to_postfix_loop (tokens_of lr e @ (ParenRight # rest)) out (ParenLeft # st)"
    using Par.prems(3) by (simp add: push_def MAX_TOKENS_def MAX_STACK_def)
  also have "\<dots> = to_postfix_loop (ParenRight # rest) (out @ emitted lr e)
      (pending e @ ParenLeft # st)"
    using Par.prems by (intro Par.IH) (simp_all add: resists_def)
  also have "\<dots> = to_postfix_loop rest (out @ emitted lr e @ pending e) st"
  proof -
    have "list_all (\<lambda>t. t \<noteq> ParenLeft) (pending e)"
      using pending_operators [of e] Par.prems(1) by (auto simp: list_all_iff)
    moreover have "length (out @ emitted lr e) + length (pending e) \<le> MAX_TOKENS"
      using Par.prems(3) len by simp
    ultimately have "pop_to_paren (out @ emitted lr e) (pending e @ ParenLeft # st)
        = Returns ((out @ emitted lr e) @ pending e, ParenLeft # st)"
      by (intro pop_to_paren_pending)
    moreover have "(case st of Function f # st'' \<Rightarrow> a f st'' | _ \<Rightarrow> b) = b" for a b
      using Par.prems(2) by (auto simp: resists_def split: list.splits token.splits)
    ultimately show ?thesis by simp
  qed
  finally show ?case by (simp add: emitted_pending)
next
  case (Pad a e b)
  then show ?case by simp
qed

lemma to_postfix_tokens_of:
  assumes "well_formed e" "length (tokens_of lr e) \<le> MAX_TOKENS"
  shows "to_postfix (tokens_of lr e) = Returns (Some (postfix_of lr e))"
proof -
  have "to_postfix (tokens_of lr e) = to_postfix_loop (tokens_of lr e @ []) [] []"
    by (simp add: to_postfix_def)
  also have "\<dots> = to_postfix_loop [] ([] @ emitted lr e) (pending e @ [])"
    using assms by (intro to_postfix_loop_tokens_of) (simp_all add: resists_def)
  also have "\<dots> = drain (emitted lr e) (pending e)" by simp
  also have "\<dots> = Returns (Some (emitted lr e @ pending e))"
  proof -
    have "count_list (pending e) ParenLeft = 0"
      using pending_operators [OF assms(1)] by (auto simp: list_all_iff count_list_0_iff)
    moreover have "length (emitted lr e) + length (pending e) \<le> MAX_TOKENS"
      using length_postfix_of [of lr e] emitted_pending [of lr e, symmetric] assms(2) by simp
    ultimately show ?thesis by (simp add: drain_result)
  qed
  finally show ?thesis by (simp add: emitted_pending)
qed

section \<open>The evaluator on the postfix form of an expression\<close>

text \<open>
  The remainder of C is the remainder of the truncating division; the arithmetic of the
  operator table agrees with \<^verbatim>\<open>apply_operator\<close> where it is defined; and the value stack
  machine computes on the postfix form what direct evaluation computes on the tree.
\<close>

lemma truncate_divide:
  assumes "b \<noteq> 0"
  shows "truncate (of_int a / of_int b) = sgn a * sgn b * (\<bar>a\<bar> div \<bar>b\<bar>)"
proof -
  have pos: "\<lfloor>real_of_int \<bar>a\<bar> / real_of_int \<bar>b\<bar>\<rfloor> = \<bar>a\<bar> div \<bar>b\<bar>"
    by (rule floor_divide_of_int_eq)
  have q: "real_of_int a / real_of_int b = of_int (sgn a * sgn b) * (real_of_int \<bar>a\<bar> / real_of_int \<bar>b\<bar>)"
    using assms by (auto simp: sgn_if abs_if)
  have nn: "0 \<le> real_of_int \<bar>a\<bar> / real_of_int \<bar>b\<bar>" by simp
  have "a = 0 \<or> sgn a * sgn b = 1 \<or> sgn a * sgn b = - 1"
    using assms by (auto simp: sgn_if)
  then consider (z) "a = 0" | (p) "sgn a * sgn b = 1" "a \<noteq> 0" | (n) "sgn a * sgn b = - 1" "a \<noteq> 0"
    by blast
  then show ?thesis
  proof cases
    case z
    then show ?thesis by (simp add: truncate_def)
  next
    case p
    with q have "real_of_int a / real_of_int b = real_of_int \<bar>a\<bar> / real_of_int \<bar>b\<bar>" by simp
    with nn pos p show ?thesis by (simp add: truncate_def)
  next
    case n
    with q have e: "real_of_int a / real_of_int b = - (real_of_int \<bar>a\<bar> / real_of_int \<bar>b\<bar>)" by simp
    show ?thesis
    proof (cases "real_of_int \<bar>a\<bar> / real_of_int \<bar>b\<bar> = 0")
      case True
      with n assms show ?thesis by (simp add: truncate_def)
    next
      case False
      with nn have "0 < real_of_int \<bar>a\<bar> / real_of_int \<bar>b\<bar>" by linarith
      then have "\<not> 0 \<le> real_of_int a / real_of_int b" unfolding e by linarith
      then have "truncate (real_of_int a / real_of_int b) = \<lceil>- (real_of_int \<bar>a\<bar> / real_of_int \<bar>b\<bar>)\<rceil>"
        unfolding truncate_def e by simp
      also have "\<dots> = - \<lfloor>real_of_int \<bar>a\<bar> / real_of_int \<bar>b\<bar>\<rfloor>" by (simp add: ceiling_def)
      finally show ?thesis using pos n by simp
    qed
  qed
qed

lemma c_rem_quotient:
  assumes "b \<noteq> 0"
  shows "c_rem a b = a - b * truncate (of_int a / of_int b)"
proof -
  have "a - b * truncate (of_int a / of_int b) = sgn a * \<bar>a\<bar> - (sgn b * \<bar>b\<bar>) * (sgn a * sgn b * (\<bar>a\<bar> div \<bar>b\<bar>))"
    by (simp only: truncate_divide [OF assms] mult_sgn_abs)
  also have "\<dots> = sgn a * (\<bar>a\<bar> - \<bar>b\<bar> * (\<bar>a\<bar> div \<bar>b\<bar>)) * (sgn b * sgn b)"
    using assms by (simp add: algebra_simps)
  also have "sgn b * sgn b = 1" using assms by (simp add: sgn_if)
  also have "\<bar>a\<bar> - \<bar>b\<bar> * (\<bar>a\<bar> div \<bar>b\<bar>) = \<bar>a\<bar> mod \<bar>b\<bar>"
    by (simp add: minus_mult_div_eq_mod)
  finally show ?thesis by (simp add: c_rem_def)
qed

lemma binary_apply_operator:
  "binary c a b = Some v \<Longrightarrow> apply_operator c a b error = Returns (v, error)"
  by (auto simp: binary_def apply_operator_def c_rem_quotient split: if_splits option.splits)

lemma arith_direct: "arith lr e = Some v \<Longrightarrow> direct lr e error = Returns (v, error)"
  by (induction e arbitrary: v error)
    (auto split: option.splits simp: binary_apply_operator)

lemma eval_postfix_loop_postfix_of:
  "length st + length (postfix_of lr e) \<le> MAX_STACK \<Longrightarrow>
   eval_postfix_loop (postfix_of lr e @ rest) st error =
     (case direct lr e error of
        Fault x \<Rightarrow> Fault x
      | Returns (v, error') \<Rightarrow> eval_postfix_loop rest (v # st) error')"
proof (induction e arbitrary: st rest error)
  case (Lit s)
  then show ?case by simp
next
  case Ans
  then show ?case by simp
next
  case (Bin l c r)
  have l: "eval_postfix_loop (postfix_of lr l @ (postfix_of lr r @ Operator c # rest)) st error =
     (case direct lr l error of
        Fault x \<Rightarrow> Fault x
      | Returns (v, error') \<Rightarrow>
          eval_postfix_loop (postfix_of lr r @ Operator c # rest) (v # st) error')"
    using Bin.prems by (intro Bin.IH(1)) simp
  have r: "eval_postfix_loop (postfix_of lr r @ (Operator c # rest)) (a # st) error1 =
     (case direct lr r error1 of
        Fault x \<Rightarrow> Fault x
      | Returns (v, error') \<Rightarrow> eval_postfix_loop (Operator c # rest) (v # a # st) error')"
    for a error1
    using Bin.prems postfix_of_nonempty [of lr l]
    by (intro Bin.IH(2)) (cases "postfix_of lr l", simp_all)
  show ?case
    by (simp add: l r split: outcome.splits prod.splits)
next
  case (Par e)
  then show ?case by simp
next
  case (Pad a e b)
  then show ?case by simp
qed

lemma eval_postfix_postfix_of:
  assumes "length (postfix_of lr e) \<le> MAX_STACK"
  shows "eval_postfix (postfix_of lr e) error = direct lr e error"
  using eval_postfix_loop_postfix_of [of "[]" lr e "[]" error] assms
  by (simp add: eval_postfix_def split: outcome.splits prod.splits)

lemma evaluate_text_of:
  assumes "well_formed e" "length (tokens_of lr e) \<le> MAX_TOKENS"
  shows "evaluate_expression (text_of e) lr error = direct lr e error"
proof -
  have "length (postfix_of lr e) \<le> MAX_STACK"
    using length_postfix_of [of lr e] assms(2) by (simp add: MAX_TOKENS_def MAX_STACK_def)
  then show ?thesis
    by (simp add: evaluate_expression_def tokenize_text_of [OF assms]
        to_postfix_tokens_of [OF assms] eval_postfix_postfix_of)
qed

section \<open>Identifiers and the error flag\<close>

text \<open>
  The tokenizer on a run of letters, the pipeline on a name followed by a literal, and
  the two values the error flag can take.
\<close>

lemma tokenize_loop_identifier:
  assumes "list_all isalpha f" "f \<noteq> []" "rest = [] \<or> \<not> isalpha (hd rest)"
  shows "tokenize_loop (f @ rest) toks lr =
    (if 10 \<le> length f then Fault BufferOverrun
     else if MAX_TOKENS \<le> length toks then Fault BufferOverrun
     else if f = ''Ans'' then tokenize_loop rest (toks @ [Number lr]) lr
     else tokenize_loop rest (toks @ [Function f]) lr)"
proof -
  from assms(2) obtain c cs where f: "f = c # cs" by (cases f) auto
  with assms(1) have c: "isalpha c" and cs: "list_all isalpha cs" by simp_all
  have t: "takeWhile isalpha (cs @ rest) = cs"
    using cs assms(3) by (induction cs) (auto simp: takeWhile_eq_Nil_iff intro: hd_in_set)
  have d: "dropWhile isalpha (cs @ rest) = rest"
    using cs assms(3) by (induction cs) (auto simp: dropWhile_eq_self_iff)
  have tk: "takeWhile isalpha (c # cs @ rest) = c # cs"
    using c t by simp
  show ?thesis
    unfolding f append_Cons tokenize_loop_alpha [OF c] tk d by (rule refl)
qed

lemma function_names_alpha:
  "f \<in> set function_names \<Longrightarrow> list_all isalpha f \<and> f \<noteq> [] \<and> \<not> 10 \<le> length f \<and> f \<noteq> ''Ans''"
  by (auto simp: function_names_def isalpha_def)

lemma evaluate_function_literal:
  assumes "list_all isalpha f" "f \<noteq> []" "\<not> 10 \<le> length f" "f \<noteq> ''Ans''" "is_literal x"
  shows "evaluate_expression (f @ '' '' @ x) lr error = apply_function f (literal_value x) error"
proof -
  have sp: "isspace CHR '' ''" by (simp add: isspace_def)
  then have "\<not> isalpha CHR '' ''" using isspace_facts by blast
  then have "tokenize_loop (f @ ('' '' @ x)) [] lr = tokenize_loop ('' '' @ x) [Function f] lr"
    using assms(1-4) by (subst tokenize_loop_identifier) (simp_all add: MAX_TOKENS_def)
  also have "\<dots> = tokenize_loop (x @ []) [Function f] lr"
    using sp by (simp add: tokenize_loop_space del: tokenize_loop.simps)
  also have "\<dots> = tokenize_loop [] ([Function f] @ [Number (literal_value x)]) lr"
    using assms(5) by (subst tokenize_loop_literal) (simp_all add: follow_def MAX_TOKENS_def)
  finally have tok: "tokenize (f @ '' '' @ x) lr = Returns (Some [Function f, Number (literal_value x)])"
    by (simp add: tokenize_def)
  have post: "to_postfix [Function f, Number (literal_value x)]
      = Returns (Some [Number (literal_value x), Function f])"
    by (simp add: to_postfix_def postfix_defs)
  show ?thesis
    unfolding evaluate_expression_def tok
    by (simp add: post eval_postfix_def MAX_STACK_def split: outcome.splits prod.splits)
qed

lemma sqrt_16: "sqrt 16 = 4"
  by (rule real_sqrt_unique) simp_all

lemma apply_operator_flag:
  "apply_operator c a b error = Returns (v, error') \<Longrightarrow> error' = error \<or> error' = 1"
  by (auto simp: apply_operator_def split: if_splits option.splits)

lemma apply_function_flag:
  "apply_function f a error = Returns (v, error') \<Longrightarrow> error' = error \<or> error' = 1"
  by (auto simp: apply_function_def split: if_splits option.splits outcome.splits)

lemma eval_postfix_loop_flag:
  "eval_postfix_loop ts st error = Returns (v, error') \<Longrightarrow> error' = error \<or> error' = 1"
proof (induction ts arbitrary: st error)
  case Nil
  then show ?case by (auto split: if_splits)
next
  case (Cons t ts)
  show ?case
  proof (cases t)
    case (Number x)
    with Cons show ?thesis by (auto split: if_splits)
  next
    case (Operator c)
    show ?thesis
    proof (cases st)
      case Nil
      with Cons.prems Operator show ?thesis by simp
    next
      case outer: (Cons b st1)
      show ?thesis
      proof (cases st1)
        case Nil
        with Cons.prems Operator outer show ?thesis by simp
      next
        case (Cons a st2)
        with Cons.prems Operator outer obtain w e1 where
          "apply_operator c a b error = Returns (w, e1)"
          "eval_postfix_loop ts (w # st2) e1 = Returns (v, error')"
          by (auto split: outcome.splits)
        with Cons.IH apply_operator_flag show ?thesis by blast
      qed
    qed
  next
    case (Function f)
    show ?thesis
    proof (cases st)
      case Nil
      with Cons.prems Function show ?thesis by simp
    next
      case (Cons a st1)
      with Cons.prems Function obtain w e1 where
        "apply_function f a error = Returns (w, e1)"
        "eval_postfix_loop ts (w # st1) e1 = Returns (v, error')"
        by (auto split: outcome.splits)
      with Cons.IH apply_function_flag show ?thesis by blast
    qed
  next
    case ParenLeft
    with Cons show ?thesis by simp
  next
    case ParenRight
    with Cons show ?thesis by simp
  qed
qed

lemma to_postfix_fails_iff:
  assumes "tokenize expr lr = Returns (Some ts)"
  shows "(\<exists>r. to_postfix ts = Returns r) \<and> (to_postfix ts = Returns None) = (\<not> balanced ts)"
proof -
  from assms have "length ts \<le> MAX_TOKENS"
    unfolding tokenize_def by (rule tokenize_loop_length) simp
  then show ?thesis
    using to_postfix_loop_fails_iff [of "[]" "[]" ts] by (simp add: to_postfix_def balanced_def)
qed

section \<open>Precedence and parentheses\<close>

text \<open>
  C1. For every well-formed arithmetic expression without functions whose tokens fit the
  token buffer, \<^verbatim>\<open>evaluate_expression\<close> on its text returns what direct evaluation of the
  tree returns, error flag included; so whenever the arithmetic of the expression is
  defined, it returns that value with the flag clear. The tree is the reading of the text
  under the precedence table (\<^verbatim>\<open>+ -\<close> at 1, \<^verbatim>\<open>* / %\<close> at 2, \<^verbatim>\<open>^\<close> at 3), with
  parentheses overriding it. In particular \<^verbatim>\<open>3 + 4 * 2\<close> gives 11 and \<^verbatim>\<open>(3 + 4) * 2\<close>
  gives 14.
\<close>

theorem evaluate_well_formed:
  "(well_formed e \<and> length (tokens_of last_result e) \<le> MAX_TOKENS \<longrightarrow>
      evaluate_expression (text_of e) last_result 0 = direct last_result e 0 \<and>
      (\<forall>v. arith last_result e = Some v \<longrightarrow>
         evaluate_expression (text_of e) last_result 0 = Returns (v, 0))) \<and>
   evaluate_expression ''3 + 4 * 2'' last_result 0 = Returns (11, 0) \<and>
   evaluate_expression ''(3 + 4) * 2'' last_result 0 = Returns (14, 0)"
proof -
  have e1: "evaluate_expression ''3 + 4 * 2'' last_result 0 = Returns (11, 0)"
    by (simp add: pipeline_defs ctype_defs sscanf_defs postfix_defs)
  have e2: "evaluate_expression ''(3 + 4) * 2'' last_result 0 = Returns (14, 0)"
    by (simp add: pipeline_defs ctype_defs sscanf_defs postfix_defs)
  show ?thesis
    by (simp add: e1 e2 evaluate_text_of arith_direct)
qed

text \<open>The hypotheses of C1 hold of the tree of \<^verbatim>\<open>3 + 4 * 2\<close>, whose value is 11.\<close>

theorem evaluate_well_formed_witness:
  "well_formed sample_expr \<and> length (tokens_of 0 sample_expr) \<le> MAX_TOKENS \<and>
   text_of sample_expr = ''3 + 4 * 2'' \<and> arith 0 sample_expr = Some 11 \<and>
   evaluate_expression (text_of sample_expr) 0 0 = direct 0 sample_expr 0 \<and>
   evaluate_expression (text_of sample_expr) 0 0 = Returns (11, 0)"
proof -
  have wf: "well_formed sample_expr"
    by (simp add: expr_defs ctype_defs postfix_defs)
  have len: "length (tokens_of 0 sample_expr) \<le> MAX_TOKENS"
    by (simp add: sample_expr_def MAX_TOKENS_def)
  have shown: "text_of sample_expr = ''3 + 4 * 2''"
    by (simp add: sample_expr_def)
  have val: "arith 0 sample_expr = Some 11"
    by (simp add: expr_defs ctype_defs)
  from evaluate_well_formed [of sample_expr 0] wf len
  have run: "evaluate_expression (text_of sample_expr) 0 0 = direct 0 sample_expr 0"
    and ar: "\<forall>v. arith 0 sample_expr = Some v \<longrightarrow>
      evaluate_expression (text_of sample_expr) 0 0 = Returns (v, 0)"
    by blast+
  from ar val have "evaluate_expression (text_of sample_expr) 0 0 = Returns (11, 0)"
    by blast
  with wf len shown val run show ?thesis by blast
qed

section \<open>Associativity\<close>

text \<open>
  C2. \<^verbatim>\<open>^\<close> is right-associative and the other operators are left-associative: for
  every last result \<^verbatim>\<open>2 ^ 3 ^ 2\<close> evaluates to \<open>2 ^ (3 ^ 2) = 512\<close>; in the postfix
  sequence two \<^verbatim>\<open>^\<close> in a row group from the right, and two operators of one level
  among \<^verbatim>\<open>+ - * / %\<close> group from the left.
\<close>

theorem power_groups_right_to_left:
  "evaluate_expression ''2 ^ 3 ^ 2'' last_result 0 = Returns (512, 0) \<and>
   apply_operator (CHR ''^'') 3 2 0 = Returns (9, 0) \<and>
   apply_operator (CHR ''^'') 2 9 0 = Returns (512, 0) \<and>
   to_postfix [Number a, Operator (CHR ''^''), Number b, Operator (CHR ''^''), Number c] =
     Returns (Some [Number a, Number b, Number c, Operator (CHR ''^''), Operator (CHR ''^'')]) \<and>
   is_right_associative op = (op = CHR ''^'') \<and>
   (op1 \<in> set ''+-*/%'' \<and> op2 \<in> set ''+-*/%'' \<and> precedence op1 = precedence op2 \<longrightarrow>
      to_postfix [Number a, Operator op1, Number b, Operator op2, Number c] =
        Returns (Some [Number a, Number b, Operator op1, Number c, Operator op2])) \<and>
   evaluate_expression ''8 - 3 - 2'' last_result 0 = Returns (3, 0)"
proof -
  have e1: "evaluate_expression ''2 ^ 3 ^ 2'' last_result 0 = Returns (512, 0)"
    by (simp add: pipeline_defs ctype_defs sscanf_defs postfix_defs pow_def)
  have p1: "apply_operator (CHR ''^'') 3 2 0 = Returns (9, 0)"
    by (simp add: apply_operator_def pow_def)
  have p2: "apply_operator (CHR ''^'') 2 9 0 = Returns (512, 0)"
    by (simp add: apply_operator_def pow_def)
  have r: "to_postfix [Number a, Operator (CHR ''^''), Number b, Operator (CHR ''^''), Number c] =
     Returns (Some [Number a, Number b, Number c, Operator (CHR ''^''), Operator (CHR ''^'')])"
    by (simp add: to_postfix_def postfix_defs)
  have l: "to_postfix [Number a, Operator op1, Number b, Operator op2, Number c] =
        Returns (Some [Number a, Number b, Operator op1, Number c, Operator op2])"
    if "op1 \<in> set ''+-*/%''" "op2 \<in> set ''+-*/%''" "precedence op1 = precedence op2"
    using that by (auto simp: to_postfix_def postfix_defs)
  have e2: "evaluate_expression ''8 - 3 - 2'' last_result 0 = Returns (3, 0)"
    by (simp add: pipeline_defs ctype_defs sscanf_defs postfix_defs)
  from e1 p1 p2 r l e2 show ?thesis
    by (simp add: is_right_associative_def)
qed

text \<open>The hypothesis of the left-associative part holds of \<^verbatim>\<open>8 - 3 + 2\<close>.\<close>

theorem power_groups_right_to_left_witness:
  "CHR ''-'' \<in> set ''+-*/%'' \<and> CHR ''+'' \<in> set ''+-*/%'' \<and>
   precedence (CHR ''-'') = precedence (CHR ''+'') \<and>
   to_postfix [Number 8, Operator (CHR ''-''), Number 3, Operator (CHR ''+''), Number 2] =
     Returns (Some [Number 8, Number 3, Operator (CHR ''-''), Number 2, Operator (CHR ''+'')])"
  using power_groups_right_to_left [of 0 8 3 2 "CHR ''^''" "CHR ''-''" "CHR ''+''"]
  by (simp add: precedence_def)

section \<open>Unbalanced parentheses\<close>

text \<open>
  C3. For every input whose tokens have unbalanced parentheses the conversion fails (it
  returns \<^verbatim>\<open>-1\<close>, its only failure, and \<^verbatim>\<open>evaluate_expression\<close> reports an error), and
  for balanced tokens it does not fail. A right parenthesis that finds no left parenthesis
  on the operator stack fails, and so does a left parenthesis that is still on the stack
  at the end of the input. In particular \<^verbatim>\<open>(3 + 4\<close> and \<^verbatim>\<open>3 + 4)\<close> fail.
\<close>

theorem unbalanced_parentheses_fail:
  "(tokenize expr last_result = Returns (Some ts) \<and> \<not> balanced ts \<longrightarrow>
      to_postfix ts = Returns None \<and>
      evaluate_expression expr last_result error = Returns (0, 1)) \<and>
   (tokenize expr last_result = Returns (Some ts) \<and> balanced ts \<longrightarrow>
      (\<exists>postfix. to_postfix ts = Returns (Some postfix))) \<and>
   (ParenLeft \<notin> set stack \<and> length out + length stack \<le> MAX_TOKENS \<longrightarrow>
      to_postfix_loop (ParenRight # rest) out stack = Returns None) \<and>
   (ParenLeft \<in> set stack \<and> length out + length stack \<le> MAX_TOKENS \<longrightarrow>
      to_postfix_loop [] out stack = Returns None) \<and>
   evaluate_expression ''(3 + 4'' last_result 0 = Returns (0, 1) \<and>
   evaluate_expression ''3 + 4)'' last_result 0 = Returns (0, 1)"
proof -
  have a: "to_postfix ts = Returns None \<and>
      evaluate_expression expr last_result error = Returns (0, 1)"
    if "tokenize expr last_result = Returns (Some ts)" "\<not> balanced ts"
    using to_postfix_fails_iff [OF that(1)] that by (simp add: evaluate_expression_def)
  have b: "\<exists>postfix. to_postfix ts = Returns (Some postfix)"
    if "tokenize expr last_result = Returns (Some ts)" "balanced ts"
  proof -
    from to_postfix_fails_iff [OF that(1)] that(2)
    obtain r where "to_postfix ts = Returns r" "r \<noteq> None" by auto
    then show ?thesis by auto
  qed
  have c: "to_postfix_loop (ParenRight # rest) out stack = Returns None"
    if "ParenLeft \<notin> set stack" "length out + length stack \<le> MAX_TOKENS"
  proof -
    from pop_to_paren_shape [OF that(2)] obtain out' st' where
      p: "pop_to_paren out stack = Returns (out', st')"
      "count_list stack ParenLeft = count_list st' ParenLeft"
      "(case st' of [] \<Rightarrow> True | s # _ \<Rightarrow> s = ParenLeft)" by blast
    from that(1) have "count_list stack ParenLeft = 0" by (simp add: count_list_0_iff)
    with p have "st' = []" by (cases st') auto
    with p show ?thesis by simp
  qed
  have d: "to_postfix_loop [] out stack = Returns None"
    if "ParenLeft \<in> set stack" "length out + length stack \<le> MAX_TOKENS"
    using that by (simp add: drain_result count_list_0_iff)
  have e1: "evaluate_expression ''(3 + 4'' last_result 0 = Returns (0, 1)"
    by (simp add: pipeline_defs ctype_defs sscanf_defs postfix_defs)
  have e2: "evaluate_expression ''3 + 4)'' last_result 0 = Returns (0, 1)"
    by (simp add: pipeline_defs ctype_defs sscanf_defs postfix_defs)
  from a b c d e1 e2 show ?thesis by blast
qed

text \<open>The hypotheses of C3 hold of the input \<^verbatim>\<open>(3 + 4\<close>.\<close>

theorem unbalanced_parentheses_fail_witness:
  "tokenize ''(3 + 4'' 0 = Returns (Some [ParenLeft, Number 3, Operator (CHR ''+''), Number 4]) \<and>
   \<not> balanced [ParenLeft, Number 3, Operator (CHR ''+''), Number 4] \<and>
   to_postfix [ParenLeft, Number 3, Operator (CHR ''+''), Number 4] = Returns None \<and>
   evaluate_expression ''(3 + 4'' 0 0 = Returns (0, 1)"
proof -
  have tok: "tokenize ''(3 + 4'' 0 =
      Returns (Some [ParenLeft, Number 3, Operator (CHR ''+''), Number 4])"
    by (simp add: tokenize_def ctype_defs sscanf_defs MAX_TOKENS_def)
  have unb: "\<not> balanced [ParenLeft, Number 3, Operator (CHR ''+''), Number 4]"
    by (simp add: balanced_def)
  from unbalanced_parentheses_fail
    [of "''(3 + 4''" 0 "[ParenLeft, Number 3, Operator (CHR ''+''), Number 4]" 0] tok unb
  show ?thesis by simp
qed

section \<open>Division and modulo by zero\<close>

text \<open>
  C4. Division by zero and modulo by zero are reported as errors, not as an infinity or a
  crash: starting from a clear flag, \<^verbatim>\<open>apply_operator('/', a, b)\<close> sets the error flag
  exactly when \<open>b = 0\<close>, \<^verbatim>\<open>apply_operator('%', a, b)\<close> sets it exactly when \<open>b\<close>
  truncates to 0, and \<^verbatim>\<open>evaluate("5 / 0")\<close> returns with the flag set.
\<close>

theorem division_by_zero_fails:
  "((\<exists>v. apply_operator (CHR ''/'') a b 0 = Returns (v, 1)) = (b = 0)) \<and>
   ((\<exists>v. apply_operator (CHR ''%'') a b 0 = Returns (v, 1)) = (truncate b = 0)) \<and>
   evaluate_expression ''5 / 0'' last_result 0 = Returns (0, 1) \<and>
   evaluate_expression ''5 % 0'' last_result 0 = Returns (0, 1)"
proof -
  have quot: "(\<exists>v. apply_operator (CHR ''/'') a b 0 = Returns (v, 1)) = (b = 0)"
    by (simp add: apply_operator_def)
  have rem: "(\<exists>v. apply_operator (CHR ''%'') a b 0 = Returns (v, 1)) = (truncate b = 0)"
    by (auto simp: apply_operator_def double_to_int_def Let_def INT_MIN_def INT_MAX_def
        split: option.splits)
  have e1: "evaluate_expression ''5 / 0'' last_result 0 = Returns (0, 1)"
    by (simp add: pipeline_defs ctype_defs sscanf_defs postfix_defs)
  have e2: "evaluate_expression ''5 % 0'' last_result 0 = Returns (0, 1)"
    by (simp add: pipeline_defs ctype_defs sscanf_defs postfix_defs int_defs)
  from quot rem e1 e2 show ?thesis by blast
qed

section \<open>The remainder\<close>

text \<open>
  C5, as amended. For all operands whose truncations toward zero are values of \<^verbatim>\<open>int\<close>,
  with the second one not zero (and not \<^verbatim>\<open>INT_MIN % -1\<close>), \<^verbatim>\<open>apply_operator('%', a, b)\<close> is
  the C integer remainder of the truncated operands: the dividend minus the divisor times
  the truncated quotient. It is not a floating-point remainder: \<open>7.5 % 2\<close> is 1.
\<close>

theorem modulo_integer_semantics:
  "(INT_MIN \<le> truncate a \<and> truncate a \<le> INT_MAX \<and> INT_MIN \<le> truncate b \<and>
    truncate b \<le> INT_MAX \<and> truncate b \<noteq> 0 \<and> \<not> (truncate a = INT_MIN \<and> truncate b = - 1) \<longrightarrow>
      apply_operator (CHR ''%'') a b error =
        Returns (of_int (c_rem (truncate a) (truncate b)), error) \<and>
      c_rem (truncate a) (truncate b) =
        truncate a - truncate b * truncate (of_int (truncate a) / of_int (truncate b))) \<and>
   apply_operator (CHR ''%'') (15 / 2) 2 0 = Returns (1, 0) \<and>
   apply_operator (CHR ''%'') (- 15 / 2) 2 0 = Returns (- 1, 0)"
proof -
  have a: "apply_operator (CHR ''%'') a b error =
        Returns (of_int (c_rem (truncate a) (truncate b)), error)"
    if "INT_MIN \<le> truncate a" "truncate a \<le> INT_MAX" "INT_MIN \<le> truncate b"
      "truncate b \<le> INT_MAX" "truncate b \<noteq> 0" "\<not> (truncate a = INT_MIN \<and> truncate b = - 1)"
    using that by (simp add: apply_operator_def double_to_int_def)
  have e1: "apply_operator (CHR ''%'') (15 / 2) 2 0 = Returns (1, 0)"
    by (simp add: apply_operator_def int_defs c_rem_def)
  have e2: "apply_operator (CHR ''%'') (- 15 / 2) 2 0 = Returns (- 1, 0)"
    by (simp add: apply_operator_def int_defs c_rem_def)
  from a e1 e2 show ?thesis by (simp add: c_rem_quotient)
qed

text \<open>The hypotheses of C5 as amended hold of \<open>7.5 % 2\<close>.\<close>

theorem modulo_integer_semantics_witness:
  "INT_MIN \<le> truncate (15 / 2) \<and> truncate (15 / 2) \<le> INT_MAX \<and> INT_MIN \<le> truncate 2 \<and>
   truncate 2 \<le> INT_MAX \<and> truncate 2 \<noteq> 0 \<and> truncate (15 / 2) = 7 \<and> truncate 2 = 2 \<and>
   c_rem 7 2 = 1 \<and>
   apply_operator (CHR ''%'') (15 / 2) 2 0 = Returns (of_int (c_rem (truncate (15 / 2)) (truncate 2)), 0)"
  using modulo_integer_semantics [of "15 / 2" 2 0]
  by (simp add: int_defs c_rem_def)

text \<open>
  C5 as stated, for all operands, fails where the operand is too large for an \<^verbatim>\<open>int\<close>:
  the truncated remainder of 3000000000 by 7 is 4, and the conversion \<^verbatim>\<open>(int)a\<close> is
  undefined.
\<close>

theorem modulo_out_of_int_range:
  "truncate 7 = 7 \<and> truncate 3000000000 = 3000000000 \<and> c_rem 3000000000 7 = 4 \<and>
   apply_operator (CHR ''%'') 3000000000 7 0 = Fault IntRange \<and>
   apply_operator (CHR ''%'') 3000000000 7 0 \<noteq>
     Returns (of_int (c_rem (truncate 3000000000) (truncate 7)), 0)"
  by (simp add: apply_operator_def int_defs c_rem_def)

section \<open>The token buffer\<close>

text \<open>
  C6. The tokenizer does not bound its output. On a text of 101 tokens (51 literals and 50
  operators, 101 characters) it writes the last token past the end of the caller's array
  of \<^verbatim>\<open>MAX_TOKENS\<close> elements; it does not reject the input.
\<close>

theorem tokenize_overruns_token_buffer:
  "tokenize ''1+1+1+1+1+1+1+1+1+1+1+1+1+1+1+1+1+1+1+1+1+1+1+1+1+1+1+1+1+1+1+1+1+1+1+1+1+1+1+1+1+1+1+1+1+1+1+1+1+1+1'' last_result = Fault BufferOverrun \<and>
   evaluate_expression ''1+1+1+1+1+1+1+1+1+1+1+1+1+1+1+1+1+1+1+1+1+1+1+1+1+1+1+1+1+1+1+1+1+1+1+1+1+1+1+1+1+1+1+1+1+1+1+1+1+1+1'' last_result 0 = Fault BufferOverrun"
  by (simp add: evaluate_expression_def tokenize_def ctype_defs sscanf_defs MAX_TOKENS_def)

section \<open>Numeric literals\<close>

text \<open>
  C7. A run of digits and points with more than one point is taken as one number token:
  on \<^verbatim>\<open>1.2.3\<close> \<^verbatim>\<open>sscanf\<close> reads 1.2, the loop after it skips the whole run, and the
  expression evaluates to 1.2 without an error.
\<close>

theorem second_point_is_swallowed:
  "tokenize ''1.2.3'' last_result = Returns (Some [Number (6 / 5)]) \<and>
   evaluate_expression ''1.2.3'' last_result 0 = Returns (6 / 5, 0)"
  by (simp add: pipeline_defs ctype_defs sscanf_defs postfix_defs)

section \<open>The error channel\<close>

text \<open>
  C8, as amended. The first stage that fails ends the pipeline: when \<^verbatim>\<open>tokenize\<close> or
  \<^verbatim>\<open>to_postfix\<close> returns \<^verbatim>\<open>-1\<close> the result is 0 with the error flag set and no later
  stage runs; otherwise the result is that of \<^verbatim>\<open>eval_postfix\<close>. The error is one flag
  with the values 0 and 1: it says that the evaluation failed, not why.
\<close>

theorem first_failure_sets_the_flag:
  "(tokenize expr last_result = Returns None \<longrightarrow>
      evaluate_expression expr last_result error = Returns (0, 1)) \<and>
   (tokenize expr last_result = Returns (Some ts) \<and> to_postfix ts = Returns None \<longrightarrow>
      evaluate_expression expr last_result error = Returns (0, 1)) \<and>
   (tokenize expr last_result = Returns (Some ts) \<and> to_postfix ts = Returns (Some postfix) \<longrightarrow>
      evaluate_expression expr last_result error = eval_postfix postfix error) \<and>
   (evaluate_expression expr last_result 0 = Returns (v, error') \<longrightarrow>
      error' = 0 \<or> error' = 1)"
proof -
  have "error' = 0 \<or> error' = 1"
    if "evaluate_expression expr last_result 0 = Returns (v, error')"
    using that eval_postfix_loop_flag [of _ "[]" 0 v error']
    by (auto simp: evaluate_expression_def eval_postfix_def
        split: outcome.splits option.splits)
  then show ?thesis by (auto simp: evaluate_expression_def)
qed

text \<open>
  The hypotheses of C8 as amended hold of \<^verbatim>\<open>#\<close> (the tokenizer fails), of \<^verbatim>\<open>3 + 4)\<close>
  (the converter fails) and of \<^verbatim>\<open>5 / 0\<close> (both succeed).
\<close>

theorem first_failure_sets_the_flag_witness:
  "tokenize ''#'' 0 = Returns None \<and> evaluate_expression ''#'' 0 0 = Returns (0, 1) \<and>
   tokenize ''3 + 4)'' 0 = Returns (Some [Number 3, Operator (CHR ''+''), Number 4, ParenRight]) \<and>
   to_postfix [Number 3, Operator (CHR ''+''), Number 4, ParenRight] = Returns None \<and>
   evaluate_expression ''3 + 4)'' 0 0 = Returns (0, 1) \<and>
   tokenize ''5 / 0'' 0 = Returns (Some [Number 5, Operator (CHR ''/''), Number 0]) \<and>
   to_postfix [Number 5, Operator (CHR ''/''), Number 0] =
     Returns (Some [Number 5, Number 0, Operator (CHR ''/'')]) \<and>
   evaluate_expression ''5 / 0'' 0 0 = eval_postfix [Number 5, Number 0, Operator (CHR ''/'')] 0"
proof -
  have t1: "tokenize ''#'' 0 = Returns None"
    by (simp add: tokenize_def ctype_defs)
  have t2: "tokenize ''3 + 4)'' 0 =
      Returns (Some [Number 3, Operator (CHR ''+''), Number 4, ParenRight])"
    by (simp add: tokenize_def ctype_defs sscanf_defs MAX_TOKENS_def)
  have p2: "to_postfix [Number 3, Operator (CHR ''+''), Number 4, ParenRight] = Returns None"
    by (simp add: to_postfix_def postfix_defs)
  have t3: "tokenize ''5 / 0'' 0 = Returns (Some [Number 5, Operator (CHR ''/''), Number 0])"
    by (simp add: tokenize_def ctype_defs sscanf_defs MAX_TOKENS_def)
  have p3: "to_postfix [Number 5, Operator (CHR ''/''), Number 0] =
     Returns (Some [Number 5, Number 0, Operator (CHR ''/'')])"
    by (simp add: to_postfix_def postfix_defs)
  from first_failure_sets_the_flag [of "''#''" 0 0] t1
  have a: "evaluate_expression ''#'' 0 0 = Returns (0, 1)" by blast
  from first_failure_sets_the_flag
    [of "''3 + 4)''" 0 0 "[Number 3, Operator (CHR ''+''), Number 4, ParenRight]"] t2 p2
  have b: "evaluate_expression ''3 + 4)'' 0 0 = Returns (0, 1)" by blast
  from first_failure_sets_the_flag
    [of "''5 / 0''" 0 0 "[Number 5, Operator (CHR ''/''), Number 0]"
      "[Number 5, Number 0, Operator (CHR ''/'')]"] t3 p3
  have c: "evaluate_expression ''5 / 0'' 0 0 =
      eval_postfix [Number 5, Number 0, Operator (CHR ''/'')] 0" by blast
  from t1 t2 p2 t3 p3 a b c show ?thesis by blast
qed

text \<open>
  C8 as stated fails: an invalid character, a missing parenthesis and a division by zero
  give the same result, 0 with the flag 1.
\<close>

theorem error_kinds_are_indistinguishable:
  "tokenize ''#'' 0 = Returns None \<and>
   to_postfix [ParenLeft, Number 3, Operator (CHR ''+''), Number 4] = Returns None \<and>
   evaluate_expression ''#'' 0 0 = Returns (0, 1) \<and>
   evaluate_expression ''(3 + 4'' 0 0 = Returns (0, 1) \<and>
   evaluate_expression ''5 / 0'' 0 0 = Returns (0, 1) \<and>
   evaluate_expression ''#'' 0 0 = evaluate_expression ''(3 + 4'' 0 0 \<and>
   evaluate_expression ''(3 + 4'' 0 0 = evaluate_expression ''5 / 0'' 0 0"
  by (simp add: pipeline_defs ctype_defs sscanf_defs postfix_defs)

section \<open>A function without parentheses\<close>

text \<open>
  C9, as amended. For every function name of the registry and every numeric literal,
  \<^verbatim>\<open>evaluate_expression\<close> on the name, a space and the literal returns exactly what
  \<^verbatim>\<open>apply_function\<close> returns on the literal's value: its value, or an error where the
  argument is outside the function's domain. In particular \<^verbatim>\<open>sqrt 16\<close> is 4.
\<close>

theorem function_without_parentheses:
  "(f \<in> set function_names \<and> is_literal x \<longrightarrow>
      evaluate_expression (f @ '' '' @ x) last_result 0 =
        apply_function f (literal_value x) 0) \<and>
   evaluate_expression ''sqrt 16'' last_result 0 = Returns (4, 0)"
proof -
  have a: "evaluate_expression (f @ '' '' @ x) last_result 0 =
        apply_function f (literal_value x) 0"
    if "f \<in> set function_names" "is_literal x"
    using function_names_alpha [OF that(1)] that(2) by (intro evaluate_function_literal) simp_all
  have b: "evaluate_expression ''sqrt 16'' last_result 0 = Returns (4, 0)"
    by (simp add: pipeline_defs ctype_defs sscanf_defs postfix_defs apply_function_def sqrt_16)
  from a b show ?thesis by blast
qed

text \<open>The hypotheses of C9 as amended hold of \<^verbatim>\<open>sqrt\<close> and \<^verbatim>\<open>16\<close>.\<close>

theorem function_without_parentheses_witness:
  "''sqrt'' \<in> set function_names \<and> is_literal ''16'' \<and> literal_value ''16'' = 16 \<and>
   apply_function ''sqrt'' 16 0 = Returns (4, 0) \<and>
   evaluate_expression (''sqrt'' @ '' '' @ ''16'') 0 0 = apply_function ''sqrt'' (literal_value ''16'') 0"
proof -
  have m: "''sqrt'' \<in> set function_names" by (simp add: function_names_def)
  have l: "is_literal ''16''" by (simp add: is_literal_def isdigit_def)
  have v: "literal_value ''16'' = 16" by (simp add: literal_value_def isdigit_def)
  have s: "apply_function ''sqrt'' 16 0 = Returns (4, 0)"
    by (simp add: apply_function_def sqrt_16)
  from function_without_parentheses [of "''sqrt''" "''16''" 0] m l
  have "evaluate_expression (''sqrt'' @ '' '' @ ''16'') 0 0 =
      apply_function ''sqrt'' (literal_value ''16'') 0" by blast
  with m l v s show ?thesis by blast
qed

text \<open>
  C9 as stated, that the evaluation succeeds for every registered function and literal,
  fails for \<^verbatim>\<open>ln 0\<close>.
\<close>

theorem function_of_literal_can_fail:
  "''ln'' \<in> set function_names \<and> is_literal ''0'' \<and> literal_value ''0'' = 0 \<and>
   apply_function ''ln'' 0 0 = Returns (0, 1) \<and>
   evaluate_expression ''ln 0'' 0 0 = Returns (0, 1)"
  by (simp add: pipeline_defs ctype_defs sscanf_defs postfix_defs apply_function_def
      function_names_def is_literal_def literal_value_def)

section \<open>Blank input\<close>

text \<open>
  C10. For the empty text and for every text of white space only, for every last result
  and every incoming flag, tokenization yields no tokens, the conversion of no tokens
  yields an empty postfix sequence, the evaluator rejects it (the final depth of the value
  stack is 0, not 1), and \<^verbatim>\<open>evaluate_expression\<close> reports an error.
\<close>

theorem blank_input_fails:
  "(list_all isspace expr \<longrightarrow>
      tokenize expr last_result = Returns (Some []) \<and>
      evaluate_expression expr last_result error = Returns (0, 1)) \<and>
   to_postfix [] = Returns (Some []) \<and>
   eval_postfix [] error = Returns (0, 1) \<and>
   evaluate_expression [] last_result error = Returns (0, 1)"
proof -
  have p: "to_postfix [] = Returns (Some [])" by (simp add: to_postfix_def)
  have e: "eval_postfix [] error = Returns (0, 1)" by (simp add: eval_postfix_def)
  have t: "tokenize expr last_result = Returns (Some [])" if "list_all isspace expr"
    using tokenize_loop_spaces [OF that, of "[]" "[]" last_result] by (simp add: tokenize_def)
  from p e t show ?thesis by (simp add: evaluate_expression_def tokenize_def)
qed

text \<open>The hypothesis of C10 holds of a space, a tab and a space.\<close>

theorem blank_input_fails_witness:
  "list_all isspace [CHR '' '', CHR 0x09, CHR '' ''] \<and>
   tokenize [CHR '' '', CHR 0x09, CHR '' ''] 0 = Returns (Some []) \<and>
   evaluate_expression [CHR '' '', CHR 0x09, CHR '' ''] 0 0 = Returns (0, 1)"
  using blank_input_fails [of "[CHR '' '', CHR 0x09, CHR '' '']" 0 0]
  by (simp add: isspace_def)

end
